theory Spec2Isabelle
  imports Complex_Main "HOL-Library.Multiset" "HOL-Library.Word"
begin

section \<open>Exceptions\<close>

text \<open>
  The exceptions of \<^verbatim>\<open>src/app/main.py\<close>. \<open>HTTPException\<close> carries its status
  code and detail. \<open>LibraryError\<close> stands for any other \<^verbatim>\<open>Exception\<close> a library
  call raises (the CSV reader, the database session); its argument is what \<^verbatim>\<open>str(e)\<close>
  gives.
\<close>

datatype exn =
    UnicodeDecodeError string
  | KeyError string
  | ZeroDivisionError
  | ValueError string
  | HTTPException nat string
  | LibraryError string

section \<open>The users table and the response models\<close>

text \<open>
  Modelled from the spec: a row of the users table, as the ORM class \<^verbatim>\<open>models.User\<close>
  (module \<^verbatim>\<open>models\<close>, not among the sources) loads it: the store-assigned integer
  identifier and the four typed fields of section 3.
\<close>

record users_row =
  row_id :: int
  row_firstName :: string
  row_lastName :: string
  row_age :: int
  row_email :: string

text \<open>
  Modelled from the spec: the response models of the module \<^verbatim>\<open>schemas\<close>, not among the
  sources: \<^verbatim>\<open>User\<close>, \<^verbatim>\<open>BaseResponse\<close>, \<^verbatim>\<open>UserResponse\<close> and \<^verbatim>\<open>UsersResponse\<close>,
  with the fields of section 6, which are the fields the handlers fill.
\<close>

record User =
  user_id :: int
  firstName :: string
  lastName :: string
  age :: int
  email :: string

record BaseResponse =
  success :: bool
  message :: string

record UserResponse =
  success1 :: bool
  data1 :: User

record UsersResponse =
  success2 :: bool
  data2 :: "User list"
  total_pages :: int
  next_page :: bool

text \<open>
  Modelled from the spec: \<^verbatim>\<open>User.model_validate(user)\<close> of \<^verbatim>\<open>schemas\<close>, the response
  model read off the attributes of a row.
\<close>

definition model_validate :: "users_row \<Rightarrow> User" where
  "model_validate r =
     \<lparr>user_id = row_id r, firstName = row_firstName r, lastName = row_lastName r,
      age = row_age r, email = row_email r\<rparr>"

section \<open>The query service\<close>

text \<open>
  Modelled from the spec: the store's \<^verbatim>\<open>query(filter, offset, limit)\<close>, here
  \<^verbatim>\<open>select(models.User).offset(offset).limit(limit)\<close> executed on the table, in the
  store's own row order. The spec gives it for an offset and a limit that are not
  negative; a negative one is refused by the store.
\<close>

definition select_offset_limit :: "users_row list \<Rightarrow> int \<Rightarrow> int \<Rightarrow> exn + users_row list" where
  "select_offset_limit table offset limit =
     (if offset < 0 \<or> limit < 0 then Inl (LibraryError ''OFFSET and LIMIT must not be negative'')
      else Inr (take (nat limit) (drop (nat offset) table)))"

text \<open>Python's \<^verbatim>\<open>a // b\<close> on integers: floor division, \<^verbatim>\<open>ZeroDivisionError\<close> when \<open>b\<close> is 0.\<close>

definition floordiv :: "int \<Rightarrow> int \<Rightarrow> exn + int" where
  "floordiv a b = (if b = 0 then Inl ZeroDivisionError else Inr (a div b))"

text \<open>
  \<^verbatim>\<open>get_users(limit, page, db)\<close>, lines 136-171. Both queries read the same table.
\<close>

definition get_users :: "int \<Rightarrow> int \<Rightarrow> users_row list \<Rightarrow> exn + UsersResponse" where
  "get_users limit page db =
     (let offset = (page - 1) * limit in
      case select_offset_limit db offset limit of
        Inl e \<Rightarrow> Inl e
      | Inr users \<Rightarrow>
          let user_responses = map model_validate users;
              total_users = int (length db)
          in case floordiv (total_users + limit - 1) limit of
               Inl e \<Rightarrow> Inl e
             | Inr total_pages' \<Rightarrow>
                 Inr \<lparr>success2 = True, data2 = user_responses,
                      total_pages = total_pages', next_page = (page < total_pages')\<rparr>)"

text \<open>
  \<^verbatim>\<open>get_user(user_id, db)\<close>, lines 174-191: \<^verbatim>\<open>.first()\<close> is the first row the filter
  keeps, or \<^verbatim>\<open>None\<close>.
\<close>

definition get_user :: "int \<Rightarrow> users_row list \<Rightarrow> exn + UserResponse" where
  "get_user uid db =
     (case find (\<lambda>r. row_id r = uid) db of
        None \<Rightarrow> Inl (HTTPException 404 ''User not found'')
      | Some user \<Rightarrow> Inr \<lparr>success1 = True, data1 = model_validate user\<rparr>)"

text \<open>The spec's words for the page count: the ceiling of the quotient.\<close>

definition ceil_pages :: "int \<Rightarrow> int \<Rightarrow> int" where
  "ceil_pages total_count limit = \<lceil>real_of_int total_count / real_of_int limit\<rceil>"

text \<open>A table of 25 users, for the example of the spec.\<close>

definition users25 :: "users_row list" where
  "users25 =
     map (\<lambda>i. \<lparr>row_id = int i, row_firstName = ''Ada'', row_lastName = ''Lovelace'',
                row_age = 20 + int i, row_email = ''ada@example.org''\<rparr>) [1..<26]"

section \<open>Values read from a CSV file\<close>

text \<open>
  A cell of a chunk as the CSV reader infers it: an integer, a string, or the missing
  value. The reader raises nothing for a column of ages that holds a word: it gives the
  cells as strings.
\<close>

datatype cell = CInt int | CStr string | CNaN

text \<open>
  What \<^verbatim>\<open>models.User(firstName=..., lastName=..., age=..., email=...)\<close> builds: an
  object that is not yet in the table, holding the four values as they were read. The
  constructor checks no type, and the identifier is absent until the store assigns it.
\<close>

record models_User =
  obj_firstName :: cell
  obj_lastName :: cell
  obj_age :: cell
  obj_email :: cell

type_synonym batch = "models_User list"

text \<open>A chunk (a \<^verbatim>\<open>DataFrame\<close>): the column names of the header and the rows under them.\<close>

record dataframe =
  columns :: "string list"
  records :: "cell list list"

text \<open>
  The iterator \<^verbatim>\<open>pd.read_csv(file_stream, chunksize=chunk_size)\<close> as the loop sees it:
  it is exhausted, or yields a chunk and goes on, or raises.
\<close>

datatype reader = Stop | Chunk dataframe reader | Fail exn

text \<open>The library calls of the producer: \<^verbatim>\<open>bytes.decode('utf-8')\<close> and \<^verbatim>\<open>pd.read_csv\<close>.\<close>

type_synonym decoder = "8 word list \<Rightarrow> exn + string"
type_synonym csv_reader = "string \<Rightarrow> nat \<Rightarrow> reader"

section \<open>The pipeline state\<close>

text \<open>
  The calls the code issues on the queue, the session, the reader and the logger, in the
  order it issues them. A call that raises is recorded as well.
\<close>

datatype call =
    Queue_get batch
  | Queue_put batch
  | Queue_task_done
  | Get_db nat
  | Add_all nat batch
  | Commit nat
  | Rollback nat
  | Close nat
  | Reader_next
  | Logging_info string
  | Logging_error string

text \<open>
  The module's \<^verbatim>\<open>queue = asyncio.Queue()\<close> (its items and its counter of unfinished
  tasks), the users table, the sessions handed out by \<^verbatim>\<open>get_db\<close> and still open, and
  the calls issued so far.
\<close>

record pipeline =
  queue :: "batch list"
  unfinished_tasks :: nat
  users_table :: "users_row list"
  sessions_opened :: nat
  open_sessions :: "nat list"
  trace :: "call list"

definition issue :: "call \<Rightarrow> pipeline \<Rightarrow> pipeline" where
  "issue c s = s\<lparr>trace := trace s @ [c]\<rparr>"

definition logging_info :: "string \<Rightarrow> pipeline \<Rightarrow> pipeline" where
  "logging_info msg s = issue (Logging_info msg) s"

definition logging_error :: "string \<Rightarrow> pipeline \<Rightarrow> pipeline" where
  "logging_error msg s = issue (Logging_error msg) s"

subsection \<open>asyncio.Queue\<close>

text \<open>
  \<^verbatim>\<open>put\<close> on a queue without a bound appends the item and counts one more unfinished
  task; \<^verbatim>\<open>get\<close> takes the head, and suspends the caller while the queue is empty
  (\<open>None\<close>); \<^verbatim>\<open>task_done\<close> raises \<^verbatim>\<open>ValueError\<close> when no task is unfinished.
\<close>

definition queue_put :: "batch \<Rightarrow> pipeline \<Rightarrow> pipeline" where
  "queue_put item s =
     issue (Queue_put item) (s\<lparr>queue := queue s @ [item], unfinished_tasks := Suc (unfinished_tasks s)\<rparr>)"

definition queue_get :: "pipeline \<Rightarrow> (batch \<times> pipeline) option" where
  "queue_get s =
     (case queue s of
        [] \<Rightarrow> None
      | item # rest \<Rightarrow> Some (item, issue (Queue_get item) (s\<lparr>queue := rest\<rparr>)))"

definition queue_task_done :: "pipeline \<Rightarrow> (exn + unit) \<times> pipeline" where
  "queue_task_done s =
     (if unfinished_tasks s = 0
      then (Inl (ValueError ''task_done() called too many times''), issue Queue_task_done s)
      else (Inr (), issue Queue_task_done (s\<lparr>unfinished_tasks := unfinished_tasks s - 1\<rparr>)))"

subsection \<open>The persistence gateway\<close>

text \<open>
  What the session does on one attempt, beyond the store's own checks: the exception, if
  any, that \<^verbatim>\<open>add_all\<close>, \<^verbatim>\<open>commit\<close> and \<^verbatim>\<open>rollback\<close> raise (connectivity loss and
  the like).
\<close>

record attempt =
  add_all_raises :: "exn option"
  commit_raises :: "exn option"
  rollback_raises :: "exn option"

record session =
  sid :: nat
  pending :: batch

text \<open>
  Modelled from the spec: \<^verbatim>\<open>get_db\<close> of the module \<^verbatim>\<open>database\<close>, which is not among
  the sources; it is \<^verbatim>\<open>openSession\<close> of section 4.4. Each call opens a session of its
  own, numbered by the count of the sessions opened before.
\<close>

definition get_db :: "pipeline \<Rightarrow> session \<times> pipeline" where
  "get_db s =
     (\<lparr>sid = sessions_opened s, pending = []\<rparr>,
      issue (Get_db (sessions_opened s))
        (s\<lparr>sessions_opened := Suc (sessions_opened s),
           open_sessions := open_sessions s @ [sessions_opened s]\<rparr>))"

text \<open>
  Modelled from the spec: \<^verbatim>\<open>Session.addAll(records)\<close> of section 4.4. The objects are
  pending in the session until the commit.
\<close>

definition add_all :: "attempt \<Rightarrow> session \<Rightarrow> batch \<Rightarrow> pipeline \<Rightarrow> (exn + session) \<times> pipeline" where
  "add_all a db objs s =
     (case add_all_raises a of
        Some e \<Rightarrow> (Inl e, issue (Add_all (sid db) objs) s)
      | None \<Rightarrow> (Inr (db\<lparr>pending := pending db @ objs\<rparr>), issue (Add_all (sid db) objs) s))"

text \<open>
  Modelled from the spec: the insertion of one object under identifier \<open>i\<close>. The store
  rejects a value that does not fit the typed fields of section 3 (a first name, last
  name or email that is no string, an age that is no integer).
\<close>

definition to_row :: "int \<Rightarrow> models_User \<Rightarrow> users_row option" where
  "to_row i u =
     (case (obj_firstName u, obj_lastName u, obj_age u, obj_email u) of
        (CStr f, CStr l, CInt a, CStr e) \<Rightarrow>
          Some \<lparr>row_id = i, row_firstName = f, row_lastName = l, row_age = a, row_email = e\<rparr>
      | _ \<Rightarrow> None)"

text \<open>
  Modelled from the spec: the auto-assigned integer identifier of section 6, one above the
  largest in the table.
\<close>

definition next_id :: "users_row list \<Rightarrow> int" where
  "next_id table = fold max (map row_id table) 0 + 1"

text \<open>
  Modelled from the spec: the insertion of the pending objects, in order; \<open>None\<close> when the
  store rejects one of them.
\<close>

fun insert_all :: "batch \<Rightarrow> users_row list \<Rightarrow> users_row list option" where
  "insert_all [] table = Some table"
| "insert_all (u # us) table =
     (case to_row (next_id table) u of
        None \<Rightarrow> None
      | Some r \<Rightarrow> insert_all us (table @ [r]))"

text \<open>
  Modelled from the spec: \<^verbatim>\<open>Session.commit()\<close> of section 4.4, a transaction: it inserts
  every pending object, or it raises and inserts none.
\<close>

definition commit :: "attempt \<Rightarrow> session \<Rightarrow> pipeline \<Rightarrow> (exn + session) \<times> pipeline" where
  "commit a db s =
     (case commit_raises a of
        Some e \<Rightarrow> (Inl e, issue (Commit (sid db)) s)
      | None \<Rightarrow>
          (case insert_all (pending db) (users_table s) of
             None \<Rightarrow> (Inl (LibraryError ''the store rejects a value''), issue (Commit (sid db)) s)
           | Some table \<Rightarrow> (Inr (db\<lparr>pending := []\<rparr>), issue (Commit (sid db)) (s\<lparr>users_table := table\<rparr>))))"

text \<open>
  Modelled from the spec: \<^verbatim>\<open>Session.rollback()\<close> of section 4.4: the pending objects are
  dropped. The table is not touched, since nothing of an open transaction is in it.
\<close>

definition rollback :: "attempt \<Rightarrow> session \<Rightarrow> pipeline \<Rightarrow> (exn + session) \<times> pipeline" where
  "rollback a db s =
     (case rollback_raises a of
        Some e \<Rightarrow> (Inl e, issue (Rollback (sid db)) s)
      | None \<Rightarrow> (Inr (db\<lparr>pending := []\<rparr>), issue (Rollback (sid db)) s))"

text \<open>
  Modelled from the spec: \<^verbatim>\<open>Session.close()\<close> of section 4.4, idempotent and always safe
  to call.
\<close>

definition close :: "session \<Rightarrow> pipeline \<Rightarrow> pipeline" where
  "close db s = issue (Close (sid db)) (s\<lparr>open_sessions := removeAll (sid db) (open_sessions s)\<rparr>)"

section \<open>What str(e) gives\<close>

fun digit_char :: "nat \<Rightarrow> char" where
  "digit_char n = char_of (48 + n)"

fun str_nat :: "nat \<Rightarrow> string" where
  "str_nat n = (if n < 10 then [digit_char n] else str_nat (n div 10) @ [digit_char (n mod 10)])"

text \<open>
  \<^verbatim>\<open>str(e)\<close>: the message of the exception; for a \<^verbatim>\<open>KeyError\<close> the key between
  quotes, for an \<^verbatim>\<open>HTTPException\<close> its status code and detail.
\<close>

fun str_exn :: "exn \<Rightarrow> string" where
  "str_exn (UnicodeDecodeError m) = m"
| "str_exn (KeyError k) = [CHR 0x27] @ k @ [CHR 0x27]"
| "str_exn ZeroDivisionError = ''integer division or modulo by zero''"
| "str_exn (ValueError m) = m"
| "str_exn (HTTPException c d) = str_nat c @ '': '' @ d"
| "str_exn (LibraryError m) = m"

section \<open>The worker\<close>

text \<open>
  How one pass through the body of \<^verbatim>\<open>while True\<close> ends: the loop goes on, the worker
  stays suspended in \<^verbatim>\<open>queue.get()\<close>, or an exception leaves the loop and ends the
  task.
\<close>

datatype outcome = Continue | Waiting | Raised exn

text \<open>The \<^verbatim>\<open>try\<close> block, lines 45-49.\<close>

definition try_block :: "attempt \<Rightarrow> session \<Rightarrow> batch \<Rightarrow> pipeline \<Rightarrow> (exn + session) \<times> pipeline" where
  "try_block a db batch s =
     (case add_all a db batch s of
        (Inl e, s1) \<Rightarrow> (Inl e, s1)
      | (Inr db1, s1) \<Rightarrow>
          (case commit a db1 s1 of
             (Inl e, s2) \<Rightarrow> (Inl e, s2)
           | (Inr db2, s2) \<Rightarrow>
               (case queue_task_done (logging_info ''Batch inserted successfully.'' s2) of
                  (Inl e, s3) \<Rightarrow> (Inl e, s3)
                | (Inr _, s3) \<Rightarrow> (Inr db2, s3))))"

text \<open>The \<^verbatim>\<open>except Exception as e\<close> block, lines 51-53.\<close>

definition except_block :: "attempt \<Rightarrow> session \<Rightarrow> batch \<Rightarrow> exn \<Rightarrow> pipeline \<Rightarrow> (exn + session) \<times> pipeline" where
  "except_block a db batch e s =
     (case rollback a db (queue_put batch s) of
        (Inl e', s1) \<Rightarrow> (Inl e', s1)
      | (Inr db1, s1) \<Rightarrow>
          (Inr db1, logging_error (''An error occurred while inserting batch: '' @ str_exn e) s1))"

text \<open>
  One pass through the loop body, lines 39-55. The \<^verbatim>\<open>finally\<close> block closes the session
  on every path; an exception of the \<^verbatim>\<open>except\<close> block goes on after it.
\<close>

definition worker_iteration :: "attempt \<Rightarrow> pipeline \<Rightarrow> outcome \<times> pipeline" where
  "worker_iteration a s =
     (case queue_get s of
        None \<Rightarrow> (Waiting, s)
      | Some (batch, s1) \<Rightarrow>
          (case get_db s1 of
             (db, s2) \<Rightarrow>
               (case try_block a db batch s2 of
                  (Inr _, s3) \<Rightarrow> (Continue, close db s3)
                | (Inl e, s3) \<Rightarrow>
                    (case except_block a db batch e s3 of
                       (Inr _, s4) \<Rightarrow> (Continue, close db s4)
                     | (Inl e', s4) \<Rightarrow> (Raised e', close db s4)))))"

text \<open>
  The loop of \<^verbatim>\<open>worker()\<close>, for as many passes as there are attempts: it never returns,
  so \<open>Continue\<close> is its state when the attempts are used up.
\<close>

fun worker :: "attempt list \<Rightarrow> pipeline \<Rightarrow> outcome \<times> pipeline" where
  "worker [] s = (Continue, s)"
| "worker (a # as) s =
     (case worker_iteration a s of
        (Continue, s') \<Rightarrow> worker as s'
      | (Waiting, s') \<Rightarrow> (Waiting, s')
      | (Raised e, s') \<Rightarrow> (Raised e, s'))"

subsection \<open>The pool\<close>

text \<open>A task of the event loop: still pending, or finished by an exception.\<close>

datatype task_state = Pending | Finished exn

text \<open>Lines 58-59: \<^verbatim>\<open>for _ in range(5): asyncio.create_task(worker())\<close>.\<close>

definition start_workers :: "task_state list" where
  "start_workers = replicate 5 Pending"

definition pool_size :: "task_state list \<Rightarrow> nat" where
  "pool_size ws = length (filter (\<lambda>w. w = Pending) ws)"

text \<open>
  The event loop lets worker \<open>i\<close> run one pass. A task that has finished never runs
  again.
\<close>

definition pool_step :: "nat \<times> attempt \<Rightarrow> task_state list \<times> pipeline \<Rightarrow> task_state list \<times> pipeline" where
  "pool_step ia p =
     (case (ia, p) of
        ((i, a), (ws, s)) \<Rightarrow>
          (if i < length ws \<and> ws ! i = Pending
           then (case worker_iteration a s of
                   (Raised e, s') \<Rightarrow> (ws[i := Finished e], s')
                 | (_, s') \<Rightarrow> (ws, s'))
           else (ws, s)))"

definition pool_run :: "(nat \<times> attempt) list \<Rightarrow> task_state list \<times> pipeline \<Rightarrow> task_state list \<times> pipeline" where
  "pool_run schedule p = fold pool_step schedule p"

section \<open>The producer\<close>

definition chunk_size :: nat where
  "chunk_size = 1000"

text \<open>\<^verbatim>\<open>row['Age']\<close>: the value under the column name, \<^verbatim>\<open>KeyError\<close> when there is none.\<close>

definition getitem :: "string list \<Rightarrow> cell list \<Rightarrow> string \<Rightarrow> exn + cell" where
  "getitem cols row k =
     (case map_of (zip cols row) k of
        None \<Rightarrow> Inl (KeyError k)
      | Some v \<Rightarrow> Inr v)"

text \<open>Lines 78-83: the keyword arguments are evaluated in the order written.\<close>

definition make_user :: "string list \<Rightarrow> cell list \<Rightarrow> exn + models_User" where
  "make_user cols row =
     (case getitem cols row ''FirstName'' of
        Inl e \<Rightarrow> Inl e
      | Inr f \<Rightarrow>
          (case getitem cols row ''LastName'' of
             Inl e \<Rightarrow> Inl e
           | Inr l \<Rightarrow>
               (case getitem cols row ''Age'' of
                  Inl e \<Rightarrow> Inl e
                | Inr a \<Rightarrow>
                    (case getitem cols row ''Email'' of
                       Inl e \<Rightarrow> Inl e
                     | Inr m \<Rightarrow>
                         Inr \<lparr>obj_firstName = f, obj_lastName = l, obj_age = a, obj_email = m\<rparr>))))"

text \<open>The list comprehension over \<^verbatim>\<open>chunk.iterrows()\<close>, lines 77-85.\<close>

fun users_of_rows :: "string list \<Rightarrow> cell list list \<Rightarrow> exn + batch" where
  "users_of_rows cols [] = Inr []"
| "users_of_rows cols (row # rest) =
     (case make_user cols row of
        Inl e \<Rightarrow> Inl e
      | Inr u \<Rightarrow>
          (case users_of_rows cols rest of
             Inl e \<Rightarrow> Inl e
           | Inr us \<Rightarrow> Inr (u # us)))"

text \<open>The \<^verbatim>\<open>for chunk in pd.read_csv(...)\<close> loop, lines 76-88.\<close>

fun for_chunks :: "reader \<Rightarrow> pipeline \<Rightarrow> (exn + unit) \<times> pipeline" where
  "for_chunks Stop s = (Inr (), issue Reader_next s)"
| "for_chunks (Fail e) s = (Inl e, issue Reader_next s)"
| "for_chunks (Chunk chunk r) s =
     (case users_of_rows (columns chunk) (records chunk) of
        Inl e \<Rightarrow> (Inl e, issue Reader_next s)
      | Inr users \<Rightarrow> for_chunks r (queue_put users (issue Reader_next s)))"

text \<open>
  \<^verbatim>\<open>process_csv_async(file_content, filename)\<close>, lines 63-94. The decoding stands
  before the \<^verbatim>\<open>try\<close>, so its exception leaves the function as it is; every exception
  of the loop is logged and raised again as an \<^verbatim>\<open>HTTPException\<close> with status 500.
\<close>

definition process_csv_async ::
    "decoder \<Rightarrow> csv_reader \<Rightarrow> 8 word list \<Rightarrow> string \<Rightarrow> pipeline \<Rightarrow> (exn + unit) \<times> pipeline" where
  "process_csv_async decode read_csv file_content filename s =
     (case decode file_content of
        Inl e \<Rightarrow> (Inl e, s)
      | Inr file_stream \<Rightarrow>
          (case for_chunks (read_csv file_stream chunk_size) s of
             (Inr _, s') \<Rightarrow>
               (Inr (), logging_info (''CSV file '' @ [CHR 0x27] @ filename @ [CHR 0x27]
                                       @ '' is being processed in the background.'') s')
           | (Inl e, s') \<Rightarrow>
               (Inl (HTTPException 500 (''An error occurred while processing the CSV: '' @ str_exn e)),
                logging_error (''An error occurred while processing the CSV '' @ [CHR 0x27] @ filename
                                 @ [CHR 0x27] @ '': '' @ str_exn e) s')))"

section \<open>The upload endpoint\<close>

record UploadFile =
  filename :: string
  content :: "8 word list"

text \<open>\<^verbatim>\<open>str.endswith\<close>.\<close>

definition endswith :: "string \<Rightarrow> string \<Rightarrow> bool" where
  "endswith s suffix = (length suffix \<le> length s \<and> drop (length s - length suffix) s = suffix)"

text \<open>
  The event loop around the pipeline: the coroutines handed to \<^verbatim>\<open>asyncio.create_task\<close>
  that have not run yet (each a call of \<^verbatim>\<open>process_csv_async\<close> with its two arguments),
  and the results of those that have. The exception of a task stays in the task.
\<close>

record event_loop =
  state :: pipeline
  created :: "(8 word list \<times> string) list"
  results :: "(exn + unit) list"

text \<open>
  \<^verbatim>\<open>upload_csv(file)\<close>, lines 111-132. The task it creates starts only after the handler
  has returned its response.
\<close>

definition upload_csv :: "UploadFile \<Rightarrow> event_loop \<Rightarrow> (exn + BaseResponse) \<times> event_loop" where
  "upload_csv file l =
     (if \<not> endswith (filename file) ''.csv''
      then (Inl (HTTPException 400 ''Invalid file type. Please upload a CSV file.''), l)
      else (Inr \<lparr>success = True, message = ''CSV file is being processed in the background''\<rparr>,
            l\<lparr>created := created l @ [(content file, filename file)]\<rparr>))"

text \<open>The event loop runs the oldest task that was created.\<close>

definition run_task :: "decoder \<Rightarrow> csv_reader \<Rightarrow> event_loop \<Rightarrow> event_loop" where
  "run_task decode read_csv l =
     (case created l of
        [] \<Rightarrow> l
      | (file_content, name) # rest \<Rightarrow>
          (case process_csv_async decode read_csv file_content name (state l) of
             (r, s') \<Rightarrow> l\<lparr>state := s', created := rest, results := results l @ [r]\<rparr>))"

section \<open>Notions for the statements\<close>

text \<open>
  The persistence attempt of a worker on batch \<open>b\<close> raises during insert or commit:
  \<^verbatim>\<open>add_all\<close> raises, or \<^verbatim>\<open>commit\<close> does, of itself or because the store rejects an
  object of the batch.
\<close>

definition attempt_fails :: "attempt \<Rightarrow> batch \<Rightarrow> users_row list \<Rightarrow> bool" where
  "attempt_fails a b table =
     (add_all_raises a \<noteq> None \<or> commit_raises a \<noteq> None \<or> insert_all b table = None)"

text \<open>The exception the \<^verbatim>\<open>try\<close> block raises on such an attempt.\<close>

definition raised_in_try :: "attempt \<Rightarrow> exn" where
  "raised_in_try a =
     (case add_all_raises a of
        Some e \<Rightarrow> e
      | None \<Rightarrow> (case commit_raises a of Some e \<Rightarrow> e | None \<Rightarrow> LibraryError ''the store rejects a value''))"

text \<open>The object a row of the table was inserted from.\<close>

definition stored :: "users_row \<Rightarrow> models_User" where
  "stored r =
     \<lparr>obj_firstName = CStr (row_firstName r), obj_lastName = CStr (row_lastName r),
      obj_age = CInt (row_age r), obj_email = CStr (row_email r)\<rparr>"

text \<open>
  Every item of the queue was put there, so the counter of unfinished tasks is at least
  the number of items. It holds of the empty queue the module creates, and every
  operation of the module keeps it.
\<close>

definition queue_counted :: "pipeline \<Rightarrow> bool" where
  "queue_counted s = (length (queue s) \<le> unfinished_tasks s)"

subsection \<open>Example values\<close>

definition startup :: pipeline where
  "startup =
     \<lparr>queue = [], unfinished_tasks = 0, users_table = [], sessions_opened = 0,
      open_sessions = [], trace = []\<rparr>"

definition ann :: models_User where
  "ann = \<lparr>obj_firstName = CStr ''Ann'', obj_lastName = CStr ''Lee'', obj_age = CInt 31,
           obj_email = CStr ''ann@example.org''\<rparr>"

definition bob :: models_User where
  "bob = \<lparr>obj_firstName = CStr ''Bob'', obj_lastName = CStr ''Ray'', obj_age = CStr ''abc'',
           obj_email = CStr ''bob@example.org''\<rparr>"

text \<open>Attempts of a session: one where nothing raises, one where the commit raises and the
  rollback works, one where the commit and the rollback both raise.\<close>

definition all_well :: attempt where
  "all_well = \<lparr>add_all_raises = None, commit_raises = None, rollback_raises = None\<rparr>"

definition commit_down :: attempt where
  "commit_down = \<lparr>add_all_raises = None, commit_raises = Some (LibraryError ''connection lost''),
                   rollback_raises = None\<rparr>"

definition all_down :: attempt where
  "all_down = \<lparr>add_all_raises = None, commit_raises = Some (LibraryError ''connection lost''),
                rollback_raises = Some (LibraryError ''connection closed'')\<rparr>"

text \<open>The pipeline after one batch, of one valid user, was put on the empty queue.\<close>

definition one_batch :: pipeline where
  "one_batch = queue_put [ann] startup"

text \<open>The columns the producer reads, in the order it reads them.\<close>

definition required_columns :: "string list" where
  "required_columns = [''FirstName'', ''LastName'', ''Age'', ''Email'']"

text \<open>
  A chunk of a valid file: the four columns are there. Every row of a \<^verbatim>\<open>DataFrame\<close> has
  a value for every column. The types of the values are not part of it.
\<close>

definition valid_chunk :: "dataframe \<Rightarrow> bool" where
  "valid_chunk c =
     (set required_columns \<subseteq> set (columns c)
      \<and> list_all (\<lambda>row. length row = length (columns c)) (records c))"

text \<open>The chunks a reader yields, and the exception it ends with, if any.\<close>

fun reader_chunks :: "reader \<Rightarrow> dataframe list" where
  "reader_chunks Stop = []"
| "reader_chunks (Fail e) = []"
| "reader_chunks (Chunk c r) = c # reader_chunks r"

fun reader_fails :: "reader \<Rightarrow> exn option" where
  "reader_fails Stop = None"
| "reader_fails (Fail e) = Some e"
| "reader_fails (Chunk c r) = reader_fails r"

subsection \<open>Example files\<close>

text \<open>
  The bytes of a text, and a decoder for the examples: on bytes below 128 it is
  \<^verbatim>\<open>bytes.decode('utf-8')\<close>, and it refuses the others, as UTF-8 refuses the byte
  \<open>0xFF\<close> of the examples. The theorems are about every decoder.
\<close>

definition bytes_of :: "string \<Rightarrow> 8 word list" where
  "bytes_of t = map (\<lambda>c. of_nat (of_char c)) t"

definition decode_ascii :: decoder where
  "decode_ascii bs =
     (if list_all (\<lambda>b. b < 0x80) bs then Inr (map (\<lambda>b. char_of (unat b)) bs)
      else Inl (UnicodeDecodeError ''invalid start byte''))"

text \<open>A file whose only row has the age \<^verbatim>\<open>abc\<close>.\<close>

definition bad_age_csv :: string where
  "bad_age_csv = ''FirstName,LastName,Age,Email'' @ [CHR 0x0A] @ ''Bob,Ray,abc,bob@example.org'' @ [CHR 0x0A]"

text \<open>A file without the column \<^verbatim>\<open>Age\<close>.\<close>

definition no_age_csv :: string where
  "no_age_csv = ''FirstName,LastName,Email'' @ [CHR 0x0A] @ ''Ann,Lee,ann@example.org'' @ [CHR 0x0A]"

text \<open>
  A file of 1001 rows that differ in the age: row \<open>k\<close> has the age \<open>k\<close>. Its line in the
  file, the row the reader makes of it, and the user the producer is to make of the row.
\<close>

definition csv_line :: "nat \<Rightarrow> string" where
  "csv_line k = ''Ann,Lee,'' @ str_nat k @ '',ann@example.org'' @ [CHR 0x0A]"

definition big_csv :: string where
  "big_csv = ''FirstName,LastName,Age,Email'' @ [CHR 0x0A] @ concat (map csv_line [0..<1001])"

definition numbered_row :: "nat \<Rightarrow> cell list" where
  "numbered_row k = [CStr ''Ann'', CStr ''Lee'', CInt (int k), CStr ''ann@example.org'']"

definition numbered_user :: "nat \<Rightarrow> models_User" where
  "numbered_user k =
     \<lparr>obj_firstName = CStr ''Ann'', obj_lastName = CStr ''Lee'', obj_age = CInt (int k),
      obj_email = CStr ''ann@example.org''\<rparr>"

text \<open>
  What \<^verbatim>\<open>pd.read_csv(file_stream, chunksize=1000)\<close> yields on these files. A column
  that holds a word comes as strings, without an exception; 1001 rows come as a chunk of
  the first 1000 and a chunk of the last one.
\<close>

definition read_examples :: csv_reader where
  "read_examples t n =
     (if t = bad_age_csv
      then Chunk \<lparr>columns = [''FirstName'', ''LastName'', ''Age'', ''Email''],
                  records = [[CStr ''Bob'', CStr ''Ray'', CStr ''abc'', CStr ''bob@example.org'']]\<rparr> Stop
      else if t = no_age_csv
      then Chunk \<lparr>columns = [''FirstName'', ''LastName'', ''Email''],
                  records = [[CStr ''Ann'', CStr ''Lee'', CStr ''ann@example.org'']]\<rparr> Stop
      else Fail (LibraryError ''No columns to parse from file''))"

definition read_big :: csv_reader where
  "read_big t n =
     (if t = big_csv
      then Chunk \<lparr>columns = [''FirstName'', ''LastName'', ''Age'', ''Email''],
                  records = map numbered_row [0..<1000]\<rparr>
             (Chunk \<lparr>columns = [''FirstName'', ''LastName'', ''Age'', ''Email''],
                     records = [numbered_row 1000]\<rparr> Stop)
      else Fail (LibraryError ''No columns to parse from file''))"

text \<open>The event loop before any upload.\<close>

definition idle :: event_loop where
  "idle = \<lparr>state = startup, created = [], results = []\<rparr>"

section \<open>Pagination\<close>

lemma floordiv_is_ceiling:
  assumes "1 \<le> limit"
  shows "(t + limit - 1) div limit = ceil_pages t limit"
proof -
  define q where "q = (t + limit - 1) div limit"
  have pos: "0 < limit" using assms by simp
  have eq: "t + limit - 1 = limit * q + (t + limit - 1) mod limit"
    unfolding q_def by simp
  have m: "0 \<le> (t + limit - 1) mod limit" "(t + limit - 1) mod limit < limit"
    using pos by simp_all
  have lo: "limit * (q - 1) < t" using eq m by (simp add: algebra_simps)
  have hi: "t \<le> limit * q" using eq m by (simp add: algebra_simps)
  have a: "real_of_int q - 1 < real_of_int t / real_of_int limit"
  proof -
    have "real_of_int (limit * (q - 1)) < real_of_int t" using lo by (simp only: of_int_less_iff)
    then show ?thesis using pos by (simp add: field_simps)
  qed
  have b: "real_of_int t / real_of_int limit \<le> real_of_int q"
  proof -
    have "real_of_int t \<le> real_of_int (limit * q)" using hi by (simp only: of_int_le_iff)
    then show ?thesis using pos by (simp add: field_simps)
  qed
  have "\<lceil>real_of_int t / real_of_int limit\<rceil> = q"
    using a b by (rule ceiling_unique)
  then show ?thesis by (simp add: ceil_pages_def q_def)
qed

lemma get_users_valid:
  assumes "1 \<le> page" and "1 \<le> limit"
  shows "get_users limit page db =
           Inr \<lparr>success2 = True,
                data2 = map model_validate (take (nat limit) (drop (nat ((page - 1) * limit)) db)),
                total_pages = ceil_pages (int (length db)) limit,
                next_page = (page < ceil_pages (int (length db)) limit)\<rparr>"
proof -
  have "0 \<le> (page - 1) * limit" using assms by simp
  moreover have "limit \<noteq> 0" "\<not> limit < 0" using assms by simp_all
  ultimately show ?thesis
    using floordiv_is_ceiling [OF assms(2), of "int (length db)"]
    by (simp add: get_users_def select_offset_limit_def floordiv_def Let_def)
qed

text \<open>
  C6. For a page and a limit of at least 1 and every table, \<open>get_users\<close> returns the rows
  from offset \<open>(page - 1) * limit\<close> on, at most \<open>limit\<close> of them, with
  \<open>total_pages\<close> the ceiling of the row count over the limit and \<open>next_page\<close> true exactly
  when the page is below it. On 25 rows with a limit of 10, page 1 has 3 total pages and
  a next page, and page 3 has 5 records and no next page.
\<close>

theorem get_users_pagination:
  assumes "1 \<le> page" and "1 \<le> limit"
  shows "\<exists>r. get_users limit page db = Inr r
           \<and> success2 r
           \<and> data2 r = map model_validate (take (nat limit) (drop (nat ((page - 1) * limit)) db))
           \<and> total_pages r = ceil_pages (int (length db)) limit
           \<and> next_page r = (page < total_pages r)
           \<and> (length db = 25 \<and> limit = 10 \<and> page = 1 \<longrightarrow> total_pages r = 3 \<and> next_page r)
           \<and> (length db = 25 \<and> limit = 10 \<and> page = 3 \<longrightarrow>
                 total_pages r = 3 \<and> \<not> next_page r \<and> length (data2 r) = 5)"
proof -
  have c: "ceil_pages 25 10 = 3"
    using floordiv_is_ceiling [of 10 25] by simp
  show ?thesis
    unfolding get_users_valid [OF assms] using c by auto
qed

theorem get_users_pagination_witness:
  "(1::int) \<le> 3 \<and> (1::int) \<le> 10
   \<and> (\<exists>r. get_users 10 3 users25 = Inr r \<and> total_pages r = 3 \<and> \<not> next_page r
          \<and> map user_id (data2 r) = [21, 22, 23, 24, 25])"
proof -
  have len: "length users25 = 25" by (simp add: users25_def)
  have ids: "map user_id (map model_validate (take 10 (drop 20 users25))) = [21, 22, 23, 24, 25]"
    by (simp add: users25_def model_validate_def drop_map take_map upt_rec [of 20] upt_rec [of 21]
        upt_rec [of 22] upt_rec [of 23] upt_rec [of 24] upt_rec [of 25])
  obtain r where r: "get_users 10 3 users25 = Inr r"
      "data2 r = map model_validate (take (nat 10) (drop (nat ((3 - 1) * 10)) users25))"
      "length users25 = 25 \<and> (10::int) = 10 \<and> (3::int) = 3 \<longrightarrow>
          total_pages r = 3 \<and> \<not> next_page r \<and> length (data2 r) = 5"
    using get_users_pagination [of 3 10 users25] by auto
  have "total_pages r = 3 \<and> \<not> next_page r" using r(3) len by simp
  moreover have "map user_id (data2 r) = [21, 22, 23, 24, 25]" using r(2) ids by simp
  ultimately show ?thesis using r(1) by simp
qed

text \<open>
  C9. With a limit of 0 the page count divides by zero: for every page and every table
  \<open>get_users\<close> raises \<open>ZeroDivisionError\<close> and returns no response. The handler checks
  neither argument: no page and no limit makes it raise an \<open>HTTPException\<close> of its own.
\<close>

theorem get_users_limit_zero:
  "get_users 0 page db = Inl ZeroDivisionError
   \<and> get_users limit page db \<noteq> Inl (HTTPException code detail)"
  by (simp add: get_users_def select_offset_limit_def floordiv_def Let_def)

section \<open>Lookup by identifier\<close>

lemma find_row_id_None: "(find (\<lambda>r. row_id r = uid) db = None) = (uid \<notin> row_id ` set db)"
  by (auto simp: find_None_iff)

lemma find_row_id_Some:
  "find (\<lambda>r. row_id r = uid) db = Some row \<Longrightarrow> row \<in> set db \<and> row_id row = uid"
  by (auto simp: find_Some_iff)

text \<open>
  C7. \<open>get_user\<close> fails exactly when no row of the table has the identifier, and then with
  the 404 \<open>HTTPException\<close> whose detail is "User not found"; otherwise it returns a
  successful response whose record has the identifier and the four fields of a stored row
  with that identifier.
\<close>

theorem get_user_found_iff:
  "(get_user uid db = Inl (HTTPException 404 ''User not found'')) = (uid \<notin> row_id ` set db)
   \<and> (\<exists>r. get_user uid db = Inr r) = (uid \<in> row_id ` set db)
   \<and> (case get_user uid db of
         Inl e \<Rightarrow> e = HTTPException 404 ''User not found''
       | Inr r \<Rightarrow> success1 r \<and>
           (\<exists>row \<in> set db. row_id row = uid \<and> user_id (data1 r) = uid
              \<and> firstName (data1 r) = row_firstName row \<and> lastName (data1 r) = row_lastName row
              \<and> age (data1 r) = row_age row \<and> email (data1 r) = row_email row))"
proof (cases "find (\<lambda>r. row_id r = uid) db")
  case None
  then show ?thesis
    using find_row_id_None [of uid db] by (simp add: get_user_def)
next
  case (Some row)
  then have "row \<in> set db \<and> row_id row = uid" by (rule find_row_id_Some)
  then show ?thesis
    using Some by (auto simp: get_user_def model_validate_def)
qed

section \<open>The worker: one attempt\<close>

lemmas gateway_defs = issue_def queue_get_def get_db_def add_all_def commit_def rollback_def
  close_def queue_put_def queue_task_done_def logging_info_def logging_error_def
  try_block_def except_block_def worker_iteration_def

lemma worker_iteration_fails_queue:
  assumes "queue s = b # rest" and "attempt_fails a b (users_table s)"
  shows "queue (snd (worker_iteration a s)) = rest @ [b]"
    and "users_table (snd (worker_iteration a s)) = users_table s"
    and "fst (worker_iteration a s) = (case rollback_raises a of None \<Rightarrow> Continue | Some e \<Rightarrow> Raised e)"
  using assms by (auto simp: gateway_defs attempt_fails_def split: option.splits)

lemma worker_iteration_fails_trace:
  assumes "queue s = b # rest" and "attempt_fails a b (users_table s)"
  shows "trace (snd (worker_iteration a s)) =
            trace s @ [Queue_get b, Get_db (sessions_opened s), Add_all (sessions_opened s) b]
             @ (if add_all_raises a = None then [Commit (sessions_opened s)] else [])
             @ [Queue_put b, Rollback (sessions_opened s)]
             @ (if rollback_raises a = None
                then [Logging_error (''An error occurred while inserting batch: '' @ str_exn (raised_in_try a))]
                else [])
             @ [Close (sessions_opened s)]"
  using assms by (auto simp: gateway_defs attempt_fails_def raised_in_try_def split: option.splits)

lemma worker_iteration_sessions:
  assumes "queue s = b # rest"
  shows "sessions_opened (snd (worker_iteration a s)) = Suc (sessions_opened s)"
    and "open_sessions (snd (worker_iteration a s)) = removeAll (sessions_opened s) (open_sessions s)"
  using assms by (auto simp: gateway_defs split: option.splits)

lemma worker_iteration_fails_unfinished:
  assumes "queue s = b # rest" and "attempt_fails a b (users_table s)"
  shows "unfinished_tasks (snd (worker_iteration a s)) = Suc (unfinished_tasks s)"
  using assms by (auto simp: gateway_defs attempt_fails_def split: option.splits)

lemma worker_iteration_succeeds:
  assumes "queue s = b # rest" and "\<not> attempt_fails a b (users_table s)" and "unfinished_tasks s \<noteq> 0"
  shows "fst (worker_iteration a s) = Continue"
    and "queue (snd (worker_iteration a s)) = rest"
    and "insert_all b (users_table s) = Some (users_table (snd (worker_iteration a s)))"
    and "unfinished_tasks (snd (worker_iteration a s)) = unfinished_tasks s - 1"
    and "trace (snd (worker_iteration a s)) =
           trace s @ [Queue_get b, Get_db (sessions_opened s), Add_all (sessions_opened s) b,
             Commit (sessions_opened s), Logging_info ''Batch inserted successfully.'', Queue_task_done,
             Close (sessions_opened s)]"
  using assms by (auto simp: gateway_defs attempt_fails_def split: option.splits)


section \<open>The worker: retries\<close>

lemma to_row_stored: "to_row i u = Some r \<Longrightarrow> stored r = u \<and> row_id r = i"
  by (cases u) (auto simp: to_row_def stored_def split: cell.splits)


lemma insert_all_appends:
  "insert_all b table = Some table' \<Longrightarrow> \<exists>rows. table' = table @ rows \<and> map stored rows = b"
proof (induction b arbitrary: table)
  case Nil
  then show ?case by simp
next
  case (Cons u us)
  show ?case
  proof (cases "to_row (next_id table) u")
    case None
    then show ?thesis using Cons.prems by simp
  next
    case (Some r)
    then have rest: "insert_all us (table @ [r]) = Some table'" using Cons.prems by simp
    from Cons.IH [OF rest] obtain rows where rows: "table' = (table @ [r]) @ rows" "map stored rows = us"
      by blast
    have "stored r = u" using to_row_stored [OF Some] by simp
    then have "table' = table @ (r # rows) \<and> map stored (r # rows) = u # us"
      using rows by simp
    then show ?thesis by (rule exI)
  qed
qed

lemma worker_append:
  "worker (as @ bs) s =
     (case worker as s of (Continue, s') \<Rightarrow> worker bs s' | (Waiting, s') \<Rightarrow> (Waiting, s')
        | (Raised e, s') \<Rightarrow> (Raised e, s'))"
proof (induction as arbitrary: s)
  case Nil
  then show ?case by simp
next
  case (Cons a as)
  show ?case
  proof (cases "worker_iteration a s")
    case (Pair out s1)
    then show ?thesis using Cons.IH [of s1] by (cases out) simp_all
  qed
qed

lemma worker_retries:
  assumes "queue s = [b]"
    and "\<forall>a \<in> set fails. attempt_fails a b (users_table s) \<and> rollback_raises a = None"
  shows "\<exists>s'. worker fails s = (Continue, s') \<and> queue s' = [b] \<and> users_table s' = users_table s
            \<and> unfinished_tasks s' = unfinished_tasks s + length fails"
  using assms
proof (induction fails arbitrary: s)
  case Nil
  then show ?case by simp
next
  case (Cons a fails)
  obtain out s1 where it: "worker_iteration a s = (out, s1)" by (cases "worker_iteration a s")
  have f: "attempt_fails a b (users_table s)" and r: "rollback_raises a = None"
    using Cons.prems(2) by simp_all
  have q1: "queue s1 = [b]" and u1: "users_table s1 = users_table s" and o: "out = Continue"
    using worker_iteration_fails_queue [OF Cons.prems(1) f] it r by simp_all
  have n1: "unfinished_tasks s1 = Suc (unfinished_tasks s)"
    using worker_iteration_fails_unfinished [OF Cons.prems(1) f] it by simp
  have "\<forall>a \<in> set fails. attempt_fails a b (users_table s1) \<and> rollback_raises a = None"
    using Cons.prems(2) u1 by simp
  from Cons.IH [OF q1 this] obtain s' where w: "worker fails s1 = (Continue, s')" "queue s' = [b]"
      "users_table s' = users_table s1" "unfinished_tasks s' = unfinished_tasks s1 + length fails"
    by blast
  have "worker (a # fails) s = (Continue, s')" using it o w(1) by simp
  moreover have "users_table s' = users_table s" using w(3) u1 by simp
  moreover have "unfinished_tasks s' = unfinished_tasks s + length (a # fails)"
    using w(4) n1 by simp
  ultimately show ?case using w(2) by blast
qed


lemma worker_exactly_once:
  assumes "queue s = [b]" and "queue_counted s"
    and "\<forall>a \<in> set fails. attempt_fails a b (users_table s) \<and> rollback_raises a = None"
    and "\<not> attempt_fails ok b (users_table s)"
  shows "\<exists>s'. worker (fails @ [ok]) s = (Continue, s') \<and> queue s' = []
            \<and> map stored (users_table s') = map stored (users_table s) @ b"
proof -
  from worker_retries [OF assms(1,3)] obtain s1 where s1: "worker fails s = (Continue, s1)"
      "queue s1 = [b]" "users_table s1 = users_table s"
      "unfinished_tasks s1 = unfinished_tasks s + length fails"
    by blast
  have "unfinished_tasks s1 \<noteq> 0" using s1(4) assms(1,2) by (simp add: queue_counted_def)
  moreover have "\<not> attempt_fails ok b (users_table s1)" using assms(4) s1(3) by simp
  ultimately have w: "fst (worker_iteration ok s1) = Continue" "queue (snd (worker_iteration ok s1)) = []"
      and t: "insert_all b (users_table s1) = Some (users_table (snd (worker_iteration ok s1)))"
    using worker_iteration_succeeds(1,2,3) [OF s1(2), of ok] by simp_all
  from insert_all_appends [OF t] obtain rows where
      "users_table (snd (worker_iteration ok s1)) = users_table s1 @ rows" "map stored rows = b"
    by blast
  then have "map stored (users_table (snd (worker_iteration ok s1))) = map stored (users_table s) @ b"
    using s1(3) by simp
  moreover have "worker (fails @ [ok]) s = (Continue, snd (worker_iteration ok s1))"
  proof -
    obtain out s2 where it: "worker_iteration ok s1 = (out, s2)" by (cases "worker_iteration ok s1")
    then have "out = Continue" using w(1) by simp
    then show ?thesis using it s1(1) by (simp add: worker_append)
  qed
  ultimately show ?thesis using w(2) by blast
qed





lemma worker_iteration_conserves:
  assumes "queue_counted s"
  shows "queue_counted (snd (worker_iteration a s))
       \<and> mset (map stored (users_table (snd (worker_iteration a s)))) + mset (concat (queue (snd (worker_iteration a s))))
           = mset (map stored (users_table s)) + mset (concat (queue s))"
proof (cases "queue s")
  case Nil
  then show ?thesis using assms by (simp add: worker_iteration_def queue_get_def)
next
  case (Cons b rest)
  show ?thesis
  proof (cases "attempt_fails a b (users_table s)")
    case True
    show ?thesis
      using worker_iteration_fails_queue(1,2) [OF Cons True]
        worker_iteration_fails_unfinished [OF Cons True] assms Cons
      by (simp add: queue_counted_def)
  next
    case False
    have n: "unfinished_tasks s \<noteq> 0" using assms Cons by (simp add: queue_counted_def)
    note w = worker_iteration_succeeds(2,3,4) [OF Cons False n]
    from insert_all_appends [OF w(2)] obtain rows where
        "users_table (snd (worker_iteration a s)) = users_table s @ rows" "map stored rows = b"
      by blast
    then show ?thesis using w(1,3) assms Cons by (simp add: queue_counted_def)
  qed
qed

lemma worker_conserves:
  "queue_counted s \<Longrightarrow>
     queue_counted (snd (worker as s))
       \<and> mset (map stored (users_table (snd (worker as s)))) + mset (concat (queue (snd (worker as s))))
           = mset (map stored (users_table s)) + mset (concat (queue s))"
proof (induction as arbitrary: s)
  case Nil
  then show ?case by simp
next
  case (Cons a as)
  obtain out s1 where it: "worker_iteration a s = (out, s1)" by (cases "worker_iteration a s")
  have c: "queue_counted s1 \<and> mset (map stored (users_table s1)) + mset (concat (queue s1))
           = mset (map stored (users_table s)) + mset (concat (queue s))"
    using worker_iteration_conserves [OF Cons.prems, of a] it by simp
  show ?case
  proof (cases out)
    case Continue
    then show ?thesis using it c Cons.IH [of s1] by simp
  next
    case Waiting
    then show ?thesis using it c by simp
  next
    case (Raised e)
    then show ?thesis using it c by simp
  qed
qed



lemma worker_iteration_miscounted_trace:
  assumes "queue s = b # rest" and "\<not> attempt_fails a b (users_table s)" and "unfinished_tasks s = 0"
  shows "trace (snd (worker_iteration a s)) =
           trace s @ [Queue_get b, Get_db (sessions_opened s)]
            @ ([Add_all (sessions_opened s) b, Commit (sessions_opened s),
               Logging_info ''Batch inserted successfully.'', Queue_task_done,
               Queue_put b, Rollback (sessions_opened s)]
               @ (if rollback_raises a = None
                  then [Logging_error (''An error occurred while inserting batch: ''
                          @ ''task_done() called too many times'')]
                  else []))
            @ [Close (sessions_opened s)]"
  using assms by (auto simp: gateway_defs attempt_fails_def split: option.splits)


section \<open>The counter of the queue\<close>

text \<open>
  The counter of unfinished tasks is at least the length of the queue when the module
  starts, and the producer keeps it so; the worker does too, as shown above.
\<close>

lemma queue_counted_startup: "queue_counted startup"
  by (simp add: queue_counted_def startup_def)

lemma queue_counted_issue: "queue_counted (issue c s) = queue_counted s"
  by (simp add: queue_counted_def issue_def)

lemma queue_counted_put: "queue_counted s \<Longrightarrow> queue_counted (queue_put b s)"
  by (simp add: queue_counted_def queue_put_def issue_def)

lemma for_chunks_counted: "queue_counted s \<Longrightarrow> queue_counted (snd (for_chunks r s))"
proof (induction r arbitrary: s)
  case Stop
  then show ?case by (simp add: queue_counted_issue)
next
  case (Fail e)
  then show ?case by (simp add: queue_counted_issue)
next
  case (Chunk c r)
  show ?case
  proof (cases "users_of_rows (columns c) (records c)")
    case (Inl e)
    then show ?thesis using Chunk.prems by (simp add: queue_counted_issue)
  next
    case (Inr us)
    have "queue_counted (queue_put us (issue Reader_next s))"
      using Chunk.prems by (simp add: queue_counted_put queue_counted_issue)
    then show ?thesis using Inr Chunk.IH by simp
  qed
qed

lemma process_csv_async_counted:
  assumes "queue_counted s"
  shows "queue_counted (snd (process_csv_async decode read_csv file_content name s))"
proof (cases "decode file_content")
  case (Inl e)
  then show ?thesis using assms by (simp add: process_csv_async_def)
next
  case (Inr decoded)
  obtain r s' where f: "for_chunks (read_csv decoded chunk_size) s = (r, s')"
    by (cases "for_chunks (read_csv decoded chunk_size) s")
  then have "queue_counted s'" using for_chunks_counted [OF assms, of "read_csv decoded chunk_size"] by simp
  then show ?thesis
    using Inr f by (cases r) (simp_all add: process_csv_async_def logging_info_def logging_error_def
        queue_counted_issue)
qed

section \<open>The pool\<close>

lemma filter_update_le:
  "\<not> P y \<Longrightarrow> length (filter P (xs[i := y])) \<le> length (filter P xs)"
  by (induction xs arbitrary: i) (auto split: nat.splits)

lemma filter_update_less:
  "\<not> P y \<Longrightarrow> i < length xs \<Longrightarrow> P (xs ! i) \<Longrightarrow>
     Suc (length (filter P (xs[i := y]))) = length (filter P xs)"
proof (induction xs arbitrary: i)
  case Nil
  then show ?case by simp
next
  case (Cons x xs)
  show ?case
  proof (cases i)
    case 0
    then show ?thesis using Cons.prems by simp
  next
    case (Suc j)
    then show ?thesis using Cons.prems Cons.IH [of j] by simp
  qed
qed

lemma pool_size_start: "pool_size start_workers = 5"
  by (simp add: pool_size_def start_workers_def)

lemma pool_step_cases:
  "pool_step (j, a) (ws, s) = (ws', s') \<Longrightarrow>
     ws' = ws \<or> (j < length ws \<and> ws ! j = Pending \<and> (\<exists>e. ws' = ws[j := Finished e]))"
  by (auto simp: pool_step_def split: if_splits prod.splits outcome.splits)

lemma pool_step_keeps:
  assumes "pool_step ja (ws, s) = (ws', s')"
  shows "length ws' = length ws"
    and "pool_size ws' \<le> pool_size ws"
    and "i < length ws \<Longrightarrow> ws ! i = Finished e \<Longrightarrow> ws' ! i = Finished e"
proof -
  obtain j a where ja: "ja = (j, a)" by (cases ja)
  from pool_step_cases [OF assms [unfolded ja]]
  have c: "ws' = ws \<or> (j < length ws \<and> ws ! j = Pending \<and> (\<exists>e. ws' = ws[j := Finished e]))" .
  show "length ws' = length ws" using c by auto
  show "pool_size ws' \<le> pool_size ws"
    using c filter_update_le [of "\<lambda>w. w = Pending" _ ws j] by (auto simp: pool_size_def)
  show "i < length ws \<Longrightarrow> ws ! i = Finished e \<Longrightarrow> ws' ! i = Finished e"
    using c by (auto simp: nth_list_update)
qed

lemma pool_run_keeps:
  assumes "i < length ws" and "ws ! i = Finished e"
  shows "fst (pool_run schedule (ws, s)) ! i = Finished e
       \<and> pool_size (fst (pool_run schedule (ws, s))) \<le> pool_size ws"
  using assms
proof (induction schedule arbitrary: ws s)
  case Nil
  then show ?case by (simp add: pool_run_def)
next
  case (Cons ja schedule)
  obtain ws' s' where st: "pool_step ja (ws, s) = (ws', s')" by (cases "pool_step ja (ws, s)")
  note k = pool_step_keeps [OF st]
  have "i < length ws'" "ws' ! i = Finished e"
    using k(1) k(3) [OF Cons.prems] Cons.prems(1) by simp_all
  from Cons.IH [OF this, of s'] have "fst (pool_run schedule (ws', s')) ! i = Finished e"
     "pool_size (fst (pool_run schedule (ws', s'))) \<le> pool_size ws'" by simp_all
  moreover have "pool_run (ja # schedule) (ws, s) = pool_run schedule (ws', s')"
    using st by (simp add: pool_run_def)
  ultimately show ?case using k(2) by simp
qed

lemma pool_step_raised:
  assumes "i < length ws" and "ws ! i = Pending" and "fst (worker_iteration a s) = Raised e"
  shows "pool_step (i, a) (ws, s) = (ws[i := Finished e], snd (worker_iteration a s))"
  using assms by (cases "worker_iteration a s") (simp add: pool_step_def)


section \<open>The worker: the claims\<close>

lemma one_batch_fields:
  "queue one_batch = [[ann]]" "unfinished_tasks one_batch = 1" "users_table one_batch = []"
  "sessions_opened one_batch = 0" "open_sessions one_batch = []" "trace one_batch = [Queue_put [ann]]"
  by (simp_all add: one_batch_def queue_put_def startup_def issue_def)

lemma example_attempts:
  "attempt_fails commit_down b table" "attempt_fails all_down b table"
  "\<not> attempt_fails all_well [ann] []"
  "rollback_raises commit_down = None" "rollback_raises all_down = Some (LibraryError ''connection closed'')"
  by (simp_all add: attempt_fails_def commit_down_def all_down_def all_well_def to_row_def ann_def)

text \<open>
  C1. Let a worker take batch \<open>b\<close> from the head of the queue. If its persistence attempt
  raises during insert or commit, the worker issues a rollback on the session of this
  attempt, the same batch stands at the tail of the queue afterwards and the table is as
  it was: none of the batch is inserted. If the attempt does not raise, the table is
  extended by the rows of the whole batch, in order, and the batch has left the queue. A
  batch that fails any number of times and then succeeds has its records in the table
  exactly once. The second and third part need the queue's counter of unfinished tasks to
  be at least the number of its items, which it always is.
\<close>

theorem worker_all_or_nothing:
  assumes "queue s = b # rest" and "queue_counted s"
  shows "(attempt_fails a b (users_table s) \<longrightarrow>
            (\<exists>pre post. trace (snd (worker_iteration a s)) =
                trace s @ pre @ [Rollback (sessions_opened s)] @ post
                \<and> Get_db (sessions_opened s) \<in> set pre)
            \<and> queue (snd (worker_iteration a s)) = rest @ [b]
            \<and> users_table (snd (worker_iteration a s)) = users_table s)
       \<and> (\<not> attempt_fails a b (users_table s) \<longrightarrow>
            fst (worker_iteration a s) = Continue
            \<and> queue (snd (worker_iteration a s)) = rest
            \<and> (\<exists>rows. users_table (snd (worker_iteration a s)) = users_table s @ rows
                  \<and> map stored rows = b))
       \<and> (rest = [] \<and> (\<forall>x \<in> set fails. attempt_fails x b (users_table s) \<and> rollback_raises x = None)
            \<and> \<not> attempt_fails ok b (users_table s) \<longrightarrow>
            (\<exists>s'. worker (fails @ [ok]) s = (Continue, s') \<and> queue s' = []
                \<and> map stored (users_table s') = map stored (users_table s) @ b))"
proof (intro conjI impI)
  assume f: "attempt_fails a b (users_table s)"
  let ?n = "sessions_opened s"
  let ?pre = "[Queue_get b, Get_db ?n, Add_all ?n b]
        @ (if add_all_raises a = None then [Commit ?n] else []) @ [Queue_put b]"
  let ?post = "(if rollback_raises a = None
        then [Logging_error (''An error occurred while inserting batch: '' @ str_exn (raised_in_try a))]
        else []) @ [Close ?n]"
  have "trace (snd (worker_iteration a s)) = trace s @ ?pre @ [Rollback ?n] @ ?post"
    using worker_iteration_fails_trace [OF assms(1) f] by simp
  moreover have "Get_db ?n \<in> set ?pre" by simp
  ultimately show "\<exists>pre post. trace (snd (worker_iteration a s)) = trace s @ pre @ [Rollback ?n] @ post
      \<and> Get_db ?n \<in> set pre"
    by blast
  show "queue (snd (worker_iteration a s)) = rest @ [b]"
    by (rule worker_iteration_fails_queue(1) [OF assms(1) f])
  show "users_table (snd (worker_iteration a s)) = users_table s"
    by (rule worker_iteration_fails_queue(2) [OF assms(1) f])
next
  assume nf: "\<not> attempt_fails a b (users_table s)"
  have n: "unfinished_tasks s \<noteq> 0" using assms by (simp add: queue_counted_def)
  note w = worker_iteration_succeeds [OF assms(1) nf n]
  show "fst (worker_iteration a s) = Continue" by (rule w(1))
  show "queue (snd (worker_iteration a s)) = rest" by (rule w(2))
  show "\<exists>rows. users_table (snd (worker_iteration a s)) = users_table s @ rows \<and> map stored rows = b"
    by (rule insert_all_appends [OF w(3)])
next
  assume h: "rest = [] \<and> (\<forall>x \<in> set fails. attempt_fails x b (users_table s) \<and> rollback_raises x = None)
      \<and> \<not> attempt_fails ok b (users_table s)"
  then have q: "queue s = [b]" using assms(1) by simp
  show "\<exists>s'. worker (fails @ [ok]) s = (Continue, s') \<and> queue s' = []
      \<and> map stored (users_table s') = map stored (users_table s) @ b"
    using worker_exactly_once [OF q assms(2), of fails ok] h by blast
qed

theorem worker_all_or_nothing_witness:
  "queue one_batch = [ann] # [] \<and> queue_counted one_batch
   \<and> attempt_fails commit_down [ann] (users_table one_batch)
   \<and> queue (snd (worker_iteration commit_down one_batch)) = [[ann]]
   \<and> users_table (snd (worker_iteration commit_down one_batch)) = []
   \<and> \<not> attempt_fails all_well [ann] (users_table one_batch)
   \<and> queue (snd (worker_iteration all_well one_batch)) = []
   \<and> (\<exists>s'. worker ([commit_down, commit_down] @ [all_well]) one_batch = (Continue, s')
          \<and> queue s' = [] \<and> map stored (users_table s') = [ann])"
proof -
  have q: "queue one_batch = [ann] # []" and c: "queue_counted one_batch"
    by (simp_all add: one_batch_fields queue_counted_def)
  note t1 = worker_all_or_nothing [OF q c, of commit_down "[]" all_well]
  note t2 = worker_all_or_nothing [OF q c, of all_well "[commit_down, commit_down]" all_well]
  have "queue (snd (worker_iteration commit_down one_batch)) = [[ann]]"
       "users_table (snd (worker_iteration commit_down one_batch)) = []"
    using t1 example_attempts(1) by (simp_all add: one_batch_fields)
  moreover have "queue (snd (worker_iteration all_well one_batch)) = []"
    using t2 example_attempts(3) by (simp add: one_batch_fields)
  moreover have "\<exists>s'. worker ([commit_down, commit_down] @ [all_well]) one_batch = (Continue, s')
          \<and> queue s' = [] \<and> map stored (users_table s') = [ann]"
    using t2 example_attempts(1,3,4) by (simp add: one_batch_fields)
  ultimately show ?thesis using q c example_attempts(1,3) by (simp add: one_batch_fields)
qed

text \<open>
  C4. A pass of the worker that takes a batch from the queue opens one session, numbered
  as the count of the sessions opened before it, and its last call closes that session,
  whatever the attempt does: commit, fail and roll back, or fail with a rollback that
  raises too. No session is open after the pass that was not open before it.
\<close>

theorem worker_session_released:
  assumes "queue s = b # rest"
  shows "\<exists>mid. trace (snd (worker_iteration a s)) =
             trace s @ [Queue_get b, Get_db (sessions_opened s)] @ mid @ [Close (sessions_opened s)]
           \<and> (\<forall>n. Get_db n \<notin> set mid \<and> Close n \<notin> set mid)
           \<and> sessions_opened (snd (worker_iteration a s)) = Suc (sessions_opened s)
           \<and> sessions_opened s \<notin> set (open_sessions (snd (worker_iteration a s)))
           \<and> set (open_sessions (snd (worker_iteration a s))) \<subseteq> set (open_sessions s)"
proof -
  let ?n = "sessions_opened s"
  let ?s' = "snd (worker_iteration a s)"
  have "\<exists>mid. trace ?s' = trace s @ [Queue_get b, Get_db ?n] @ mid @ [Close ?n]
           \<and> (\<forall>n. Get_db n \<notin> set mid \<and> Close n \<notin> set mid)"
  proof (cases "attempt_fails a b (users_table s)")
    case True
    let ?mid = "[Add_all ?n b] @ (if add_all_raises a = None then [Commit ?n] else [])
        @ [Queue_put b, Rollback ?n]
        @ (if rollback_raises a = None
           then [Logging_error (''An error occurred while inserting batch: '' @ str_exn (raised_in_try a))]
           else [])"
    have "trace ?s' = trace s @ [Queue_get b, Get_db ?n] @ ?mid @ [Close ?n]"
      using worker_iteration_fails_trace [OF assms True] by simp
    moreover have "\<forall>n. Get_db n \<notin> set ?mid \<and> Close n \<notin> set ?mid" by simp
    ultimately show ?thesis by blast
  next
    case False
    show ?thesis
    proof (cases "unfinished_tasks s = 0")
      case True
      let ?mid = "[Add_all ?n b, Commit ?n, Logging_info ''Batch inserted successfully.'',
               Queue_task_done, Queue_put b, Rollback ?n]
               @ (if rollback_raises a = None
                  then [Logging_error (''An error occurred while inserting batch: ''
                          @ ''task_done() called too many times'')]
                  else [])"
      have "trace ?s' = trace s @ [Queue_get b, Get_db ?n] @ ?mid @ [Close ?n]"
        using worker_iteration_miscounted_trace [OF assms False True] by simp
      moreover have "\<forall>n. Get_db n \<notin> set ?mid \<and> Close n \<notin> set ?mid" by simp
      ultimately show ?thesis by blast
    next
      case nz: False
      let ?mid = "[Add_all ?n b, Commit ?n, Logging_info ''Batch inserted successfully.'',
               Queue_task_done]"
      have "trace ?s' = trace s @ [Queue_get b, Get_db ?n] @ ?mid @ [Close ?n]"
        using worker_iteration_succeeds(5) [OF assms False nz] by simp
      moreover have "\<forall>n. Get_db n \<notin> set ?mid \<and> Close n \<notin> set ?mid" by simp
      ultimately show ?thesis by blast
    qed
  qed
  then show ?thesis
    using worker_iteration_sessions [OF assms, of a] by auto
qed

theorem worker_session_released_witness:
  "queue one_batch = [ann] # []
   \<and> (\<exists>mid. trace (snd (worker_iteration all_down one_batch)) =
          trace one_batch @ [Queue_get [ann], Get_db 0] @ mid @ [Close 0])
   \<and> sessions_opened (snd (worker_iteration all_down one_batch)) = 1
   \<and> open_sessions (snd (worker_iteration all_down one_batch)) = []"
proof -
  have q: "queue one_batch = [ann] # []" by (simp add: one_batch_fields)
  from worker_session_released [OF q, of all_down]
  show ?thesis using q by (auto simp: one_batch_fields)
qed

text \<open>
  C10. On a failed attempt the worker puts the batch back on the queue and only then
  issues the rollback. If the rollback raises, the batch is at the tail of the queue all
  the same, the exception leaves the loop and ends the worker's task: of the five tasks
  started, four are left, and whatever the event loop schedules later, the finished task
  stays finished and the pool never has more than four workers again.
\<close>

theorem rollback_failure_ends_worker:
  assumes "queue s = b # rest" and "attempt_fails a b (users_table s)"
  shows "(\<exists>pre post. trace (snd (worker_iteration a s)) =
             trace s @ pre @ [Queue_put b, Rollback (sessions_opened s)] @ post)
       \<and> (rollback_raises a = Some e \<longrightarrow>
            fst (worker_iteration a s) = Raised e
            \<and> queue (snd (worker_iteration a s)) = rest @ [b]
            \<and> (i < 5 \<longrightarrow>
                 pool_size (fst (pool_step (i, a) (start_workers, s))) = 4
                 \<and> (\<forall>schedule.
                       fst (pool_run schedule (pool_step (i, a) (start_workers, s))) ! i = Finished e
                       \<and> pool_size (fst (pool_run schedule (pool_step (i, a) (start_workers, s)))) \<le> 4)))"
proof (intro conjI impI allI)
  let ?n = "sessions_opened s"
  let ?pre = "[Queue_get b, Get_db ?n, Add_all ?n b]
        @ (if add_all_raises a = None then [Commit ?n] else [])"
  let ?post = "(if rollback_raises a = None
        then [Logging_error (''An error occurred while inserting batch: '' @ str_exn (raised_in_try a))]
        else []) @ [Close ?n]"
  have "trace (snd (worker_iteration a s)) = trace s @ ?pre @ [Queue_put b, Rollback ?n] @ ?post"
    using worker_iteration_fails_trace [OF assms] by simp
  then show "\<exists>pre post. trace (snd (worker_iteration a s)) =
      trace s @ pre @ [Queue_put b, Rollback ?n] @ post"
    by blast
next
  assume r: "rollback_raises a = Some e"
  show out: "fst (worker_iteration a s) = Raised e"
    using worker_iteration_fails_queue(3) [OF assms] r by simp
  show "queue (snd (worker_iteration a s)) = rest @ [b]"
    by (rule worker_iteration_fails_queue(1) [OF assms])
  assume i: "i < 5"
  have len: "i < length start_workers" and pen: "start_workers ! i = Pending"
    using i by (simp_all add: start_workers_def)
  have st: "pool_step (i, a) (start_workers, s)
      = (start_workers[i := Finished e], snd (worker_iteration a s))"
    by (rule pool_step_raised [OF len pen out])
  have "Suc (pool_size (start_workers[i := Finished e])) = pool_size start_workers"
    unfolding pool_size_def using len pen by (intro filter_update_less) simp_all
  then have four: "pool_size (start_workers[i := Finished e]) = 4"
    using pool_size_start by simp
  show "pool_size (fst (pool_step (i, a) (start_workers, s))) = 4"
    using st four by simp
  fix schedule
  have "i < length (start_workers[i := Finished e])" "start_workers[i := Finished e] ! i = Finished e"
    using len by simp_all
  note k = pool_run_keeps [OF this, of schedule "snd (worker_iteration a s)"]
  show "fst (pool_run schedule (pool_step (i, a) (start_workers, s))) ! i = Finished e"
    using k st by simp
  show "pool_size (fst (pool_run schedule (pool_step (i, a) (start_workers, s)))) \<le> 4"
    using k st four by simp
qed

theorem rollback_failure_ends_worker_witness:
  "queue one_batch = [ann] # [] \<and> attempt_fails all_down [ann] (users_table one_batch)
   \<and> rollback_raises all_down = Some (LibraryError ''connection closed'') \<and> (2::nat) < 5
   \<and> fst (worker_iteration all_down one_batch) = Raised (LibraryError ''connection closed'')
   \<and> queue (snd (worker_iteration all_down one_batch)) = [[ann]]
   \<and> pool_size (fst (pool_step (2, all_down) (start_workers, one_batch))) = 4
   \<and> pool_size (fst (pool_run [(2, all_well), (0, all_well)]
                        (pool_step (2, all_down) (start_workers, one_batch)))) \<le> 4"
proof -
  have q: "queue one_batch = [ann] # []" by (simp add: one_batch_fields)
  have f: "attempt_fails all_down [ann] (users_table one_batch)" by (rule example_attempts(2))
  from rollback_failure_ends_worker [OF q f, of "LibraryError ''connection closed''" 2]
  show ?thesis using q f example_attempts(5) by simp
qed



section \<open>The producer: rows and chunks\<close>

lemma byte_of_char: "unat (of_nat (of_char c) :: 8 word) = of_char c"
  by (simp add: unat_of_nat)

lemma decode_ascii_bytes_of:
  assumes "list_all (\<lambda>c. (of_char c :: nat) < 128) t"
  shows "decode_ascii (bytes_of t) = Inr t"
proof -
  have "list_all (\<lambda>b. b < 0x80) (bytes_of t)"
    using assms by (simp add: bytes_of_def list_all_iff word_less_nat_alt byte_of_char)
  moreover have "map (\<lambda>b. char_of (unat b)) (bytes_of t) = t"
    by (simp add: bytes_of_def byte_of_char map_idI)
  ultimately show ?thesis by (simp add: decode_ascii_def)
qed

lemmas producer_defs = issue_def queue_put_def logging_info_def logging_error_def

lemma getitem_present:
  assumes "length row = length cols" and "k \<in> set cols"
  shows "\<exists>v. getitem cols row k = Inr v"
proof -
  have "map_of (zip cols row) k \<noteq> None" using assms by simp
  then show ?thesis by (auto simp: getitem_def)
qed

lemma make_user_valid:
  assumes "length row = length cols" and "set required_columns \<subseteq> set cols"
  shows "\<exists>u. make_user cols row = Inr u"
proof -
  have "''FirstName'' \<in> set cols" "''LastName'' \<in> set cols" "''Age'' \<in> set cols" "''Email'' \<in> set cols"
    using assms(2) by (simp_all add: required_columns_def)
  then obtain f l a m where "getitem cols row ''FirstName'' = Inr f" "getitem cols row ''LastName'' = Inr l"
      "getitem cols row ''Age'' = Inr a" "getitem cols row ''Email'' = Inr m"
    using getitem_present [OF assms(1)] by metis
  then show ?thesis by (simp add: make_user_def)
qed

lemma make_user_missing:
  assumes "\<not> set required_columns \<subseteq> set cols"
  shows "\<exists>k \<in> set required_columns. make_user cols row = Inl (KeyError k)"
proof -
  have in_cols: "\<And>k v. getitem cols row k = Inr v \<Longrightarrow> k \<in> set cols"
    by (auto simp: getitem_def split: option.splits dest: map_of_SomeD set_zip_leftD)
  have key: "\<And>k. getitem cols row k = Inl (KeyError k) \<or> (\<exists>v. getitem cols row k = Inr v)"
    by (auto simp: getitem_def split: option.splits)
  show ?thesis
  proof (cases "getitem cols row ''FirstName''")
    case (Inl e)
    then show ?thesis using key [of "''FirstName''"] by (simp add: make_user_def required_columns_def)
  next
    case f: (Inr f)
    show ?thesis
    proof (cases "getitem cols row ''LastName''")
      case (Inl e)
      then show ?thesis using f key [of "''LastName''"] by (simp add: make_user_def required_columns_def)
    next
      case l: (Inr l)
      show ?thesis
      proof (cases "getitem cols row ''Age''")
        case (Inl e)
        then show ?thesis using f l key [of "''Age''"] by (simp add: make_user_def required_columns_def)
      next
        case a: (Inr a)
        show ?thesis
        proof (cases "getitem cols row ''Email''")
          case (Inl e)
          then show ?thesis using f l a key [of "''Email''"] by (simp add: make_user_def required_columns_def)
        next
          case m: (Inr m)
          have "set required_columns \<subseteq> set cols"
            using in_cols [OF f] in_cols [OF l] in_cols [OF a] in_cols [OF m]
            by (simp add: required_columns_def)
          then show ?thesis using assms by simp
        qed
      qed
    qed
  qed
qed

lemma make_user_fields:
  assumes "make_user cols row = Inr u"
  shows "map_of (zip cols row) ''FirstName'' = Some (obj_firstName u)
       \<and> map_of (zip cols row) ''LastName'' = Some (obj_lastName u)
       \<and> map_of (zip cols row) ''Age'' = Some (obj_age u)
       \<and> map_of (zip cols row) ''Email'' = Some (obj_email u)"
  using assms by (auto simp: make_user_def getitem_def split: option.splits)

lemma users_of_rows_Inr:
  "users_of_rows cols rows = Inr us \<Longrightarrow> list_all2 (\<lambda>row u. make_user cols row = Inr u) rows us"
proof (induction rows arbitrary: us)
  case Nil
  then show ?case by simp
next
  case (Cons row rows)
  then show ?case by (auto split: sum.splits)
qed

lemma users_of_rows_valid:
  assumes "set required_columns \<subseteq> set cols" and "list_all (\<lambda>row. length row = length cols) rows"
  shows "\<exists>us. users_of_rows cols rows = Inr us"
  using assms(2)
proof (induction rows)
  case Nil
  then show ?case by simp
next
  case (Cons row rows)
  then obtain us where "users_of_rows cols rows = Inr us" by auto
  moreover obtain u where "make_user cols row = Inr u"
    using make_user_valid [OF _ assms(1), of row] Cons.prems by auto
  ultimately show ?case by simp
qed

lemma for_chunks_valid:
  assumes "reader_fails r = None" and "list_all valid_chunk (reader_chunks r)"
  shows "\<exists>batches.
           for_chunks r s =
             (Inr (), s\<lparr>queue := queue s @ batches,
                        unfinished_tasks := unfinished_tasks s + length batches,
                        trace := trace s @ concat (map (\<lambda>b. [Reader_next, Queue_put b]) batches)
                                   @ [Reader_next]\<rparr>)
           \<and> list_all2 (\<lambda>c b. users_of_rows (columns c) (records c) = Inr b) (reader_chunks r) batches"
  using assms
proof (induction r arbitrary: s)
  case Stop
  show ?case by (rule exI [of _ "[]"]) (simp add: issue_def)
next
  case (Fail e)
  then show ?case by simp
next
  case (Chunk c r)
  have v: "valid_chunk c" and rest: "list_all valid_chunk (reader_chunks r)" and nf: "reader_fails r = None"
    using Chunk.prems by simp_all
  obtain us where us: "users_of_rows (columns c) (records c) = Inr us"
    using users_of_rows_valid [of "columns c" "records c"] v by (auto simp: valid_chunk_def)
  let ?s1 = "queue_put us (issue Reader_next s)"
  from Chunk.IH [OF nf rest, of ?s1] obtain batches where
    b: "for_chunks r ?s1 =
             (Inr (), ?s1\<lparr>queue := queue ?s1 @ batches,
                        unfinished_tasks := unfinished_tasks ?s1 + length batches,
                        trace := trace ?s1 @ concat (map (\<lambda>b. [Reader_next, Queue_put b]) batches)
                                   @ [Reader_next]\<rparr>)"
    and l: "list_all2 (\<lambda>c b. users_of_rows (columns c) (records c) = Inr b) (reader_chunks r) batches"
    by blast
  have "for_chunks (Chunk c r) s =
             (Inr (), s\<lparr>queue := queue s @ (us # batches),
                        unfinished_tasks := unfinished_tasks s + length (us # batches),
                        trace := trace s @ concat (map (\<lambda>b. [Reader_next, Queue_put b]) (us # batches))
                                   @ [Reader_next]\<rparr>)"
    using us b by (simp add: producer_defs)
  moreover have "list_all2 (\<lambda>c b. users_of_rows (columns c) (records c) = Inr b)
      (reader_chunks (Chunk c r)) (us # batches)"
    using us l by simp
  ultimately show ?case by blast
qed


section \<open>The producer: the claims\<close>

lemma process_csv_async_decode_fails:
  "decode file_content = Inl e \<Longrightarrow>
     process_csv_async decode read_csv file_content name s = (Inl e, s)"
  by (simp add: process_csv_async_def)

lemma process_csv_async_missing_column:
  assumes "decode file_content = Inr text" and "read_csv text chunk_size = Chunk c r"
    and "records c \<noteq> []" and "\<not> set required_columns \<subseteq> set (columns c)"
  shows "\<exists>k \<in> set required_columns.
           fst (process_csv_async decode read_csv file_content name s) =
             Inl (HTTPException 500 (''An error occurred while processing the CSV: '' @ str_exn (KeyError k)))"
    and "queue (snd (process_csv_async decode read_csv file_content name s)) = queue s"
proof -
  obtain row rows where rs: "records c = row # rows" using assms(3) by (cases "records c") auto
  obtain k where k: "k \<in> set required_columns" "make_user (columns c) row = Inl (KeyError k)"
    using make_user_missing [OF assms(4), of row] by blast
  have f: "for_chunks (Chunk c r) s = (Inl (KeyError k), issue Reader_next s)"
    using rs k(2) by simp
  have "fst (process_csv_async decode read_csv file_content name s) =
      Inl (HTTPException 500 (''An error occurred while processing the CSV: '' @ str_exn (KeyError k)))"
    using assms(1,2) f by (simp add: process_csv_async_def)
  then show "\<exists>k \<in> set required_columns.
           fst (process_csv_async decode read_csv file_content name s) =
             Inl (HTTPException 500 (''An error occurred while processing the CSV: '' @ str_exn (KeyError k)))"
    using k(1) by blast
  show "queue (snd (process_csv_async decode read_csv file_content name s)) = queue s"
    using assms(1,2) f by (simp add: process_csv_async_def producer_defs)
qed

lemma process_csv_async_valid:
  assumes "decode file_content = Inr text"
    and "reader_fails (read_csv text chunk_size) = None"
    and "list_all valid_chunk (reader_chunks (read_csv text chunk_size))"
  shows "\<exists>batches.
      fst (process_csv_async decode read_csv file_content name s) = Inr ()
    \<and> queue (snd (process_csv_async decode read_csv file_content name s)) = queue s @ batches
    \<and> trace (snd (process_csv_async decode read_csv file_content name s)) =
        trace s @ concat (map (\<lambda>b. [Reader_next, Queue_put b]) batches)
          @ [Reader_next, Logging_info (''CSV file '' @ [CHR 0x27] @ name @ [CHR 0x27]
                                       @ '' is being processed in the background.'')]
    \<and> list_all2 (\<lambda>c b. users_of_rows (columns c) (records c) = Inr b)
         (reader_chunks (read_csv text chunk_size)) batches"
proof -
  from for_chunks_valid [OF assms(2,3), of s] obtain batches where
    f: "for_chunks (read_csv text chunk_size) s =
             (Inr (), s\<lparr>queue := queue s @ batches,
                        unfinished_tasks := unfinished_tasks s + length batches,
                        trace := trace s @ concat (map (\<lambda>b. [Reader_next, Queue_put b]) batches)
                                   @ [Reader_next]\<rparr>)"
    and l: "list_all2 (\<lambda>c b. users_of_rows (columns c) (records c) = Inr b)
         (reader_chunks (read_csv text chunk_size)) batches"
    by blast
  have "fst (process_csv_async decode read_csv file_content name s) = Inr ()"
       "queue (snd (process_csv_async decode read_csv file_content name s)) = queue s @ batches"
       "trace (snd (process_csv_async decode read_csv file_content name s)) =
        trace s @ concat (map (\<lambda>b. [Reader_next, Queue_put b]) batches)
          @ [Reader_next, Logging_info (''CSV file '' @ [CHR 0x27] @ name @ [CHR 0x27]
                                       @ '' is being processed in the background.'')]"
    using assms(1) f by (simp_all add: process_csv_async_def producer_defs)
  then show ?thesis using l by blast
qed

text \<open>
  C5. For a valid file (the bytes decode, the reader raises nothing, every chunk has the
  four columns) read in chunks of at most \<open>chunk_size\<close> rows, the producer returns
  normally and has put one batch per chunk on the queue, in the order of the chunks.
  Each batch has as many users as its chunk has rows, at most 1000, and its \<open>j\<close>-th user
  is the record of the \<open>j\<close>-th row: its first name, last name, age and email are the
  values the row has under the columns FirstName, LastName, Age and Email. Each batch is
  put on the queue before the reader is asked for the next chunk.
\<close>

theorem producer_batches:
  assumes "decode file_content = Inr text"
    and "reader_fails (read_csv text chunk_size) = None"
    and "list_all valid_chunk (reader_chunks (read_csv text chunk_size))"
    and "list_all (\<lambda>c. length (records c) \<le> chunk_size) (reader_chunks (read_csv text chunk_size))"
  shows "\<exists>batches.
      fst (process_csv_async decode read_csv file_content name s) = Inr ()
    \<and> queue (snd (process_csv_async decode read_csv file_content name s)) = queue s @ batches
    \<and> trace (snd (process_csv_async decode read_csv file_content name s)) =
        trace s @ concat (map (\<lambda>b. [Reader_next, Queue_put b]) batches)
          @ [Reader_next, Logging_info (''CSV file '' @ [CHR 0x27] @ name @ [CHR 0x27]
                                       @ '' is being processed in the background.'')]
    \<and> length batches = length (reader_chunks (read_csv text chunk_size))
    \<and> (\<forall>i < length batches.
          length (batches ! i) = length (records (reader_chunks (read_csv text chunk_size) ! i))
        \<and> length (batches ! i) \<le> 1000
        \<and> (\<forall>j < length (batches ! i).
              make_user (columns (reader_chunks (read_csv text chunk_size) ! i))
                 (records (reader_chunks (read_csv text chunk_size) ! i) ! j) = Inr (batches ! i ! j)
            \<and> map_of (zip (columns (reader_chunks (read_csv text chunk_size) ! i))
                          (records (reader_chunks (read_csv text chunk_size) ! i) ! j)) ''FirstName''
                = Some (obj_firstName (batches ! i ! j))
            \<and> map_of (zip (columns (reader_chunks (read_csv text chunk_size) ! i))
                          (records (reader_chunks (read_csv text chunk_size) ! i) ! j)) ''LastName''
                = Some (obj_lastName (batches ! i ! j))
            \<and> map_of (zip (columns (reader_chunks (read_csv text chunk_size) ! i))
                          (records (reader_chunks (read_csv text chunk_size) ! i) ! j)) ''Age''
                = Some (obj_age (batches ! i ! j))
            \<and> map_of (zip (columns (reader_chunks (read_csv text chunk_size) ! i))
                          (records (reader_chunks (read_csv text chunk_size) ! i) ! j)) ''Email''
                = Some (obj_email (batches ! i ! j))))"
proof -
  let ?chunks = "reader_chunks (read_csv text chunk_size)"
  from process_csv_async_valid [where decode = decode and read_csv = read_csv and name = name and s = s,
      OF assms(1,2,3)] obtain batches where
    b: "fst (process_csv_async decode read_csv file_content name s) = Inr ()"
       "queue (snd (process_csv_async decode read_csv file_content name s)) = queue s @ batches"
       "trace (snd (process_csv_async decode read_csv file_content name s)) =
        trace s @ concat (map (\<lambda>b. [Reader_next, Queue_put b]) batches)
          @ [Reader_next, Logging_info (''CSV file '' @ [CHR 0x27] @ name @ [CHR 0x27]
                                       @ '' is being processed in the background.'')]"
    and l: "list_all2 (\<lambda>c b. users_of_rows (columns c) (records c) = Inr b) ?chunks batches"
    by blast
  have len: "length batches = length ?chunks" using l by (simp add: list_all2_lengthD)
  have each: "length (batches ! i) = length (records (?chunks ! i))
        \<and> length (batches ! i) \<le> 1000
        \<and> (\<forall>j < length (batches ! i).
              make_user (columns (?chunks ! i)) (records (?chunks ! i) ! j) = Inr (batches ! i ! j)
            \<and> map_of (zip (columns (?chunks ! i)) (records (?chunks ! i) ! j)) ''FirstName''
                = Some (obj_firstName (batches ! i ! j))
            \<and> map_of (zip (columns (?chunks ! i)) (records (?chunks ! i) ! j)) ''LastName''
                = Some (obj_lastName (batches ! i ! j))
            \<and> map_of (zip (columns (?chunks ! i)) (records (?chunks ! i) ! j)) ''Age''
                = Some (obj_age (batches ! i ! j))
            \<and> map_of (zip (columns (?chunks ! i)) (records (?chunks ! i) ! j)) ''Email''
                = Some (obj_email (batches ! i ! j)))"
    if i: "i < length batches" for i
  proof -
    have u: "users_of_rows (columns (?chunks ! i)) (records (?chunks ! i)) = Inr (batches ! i)"
      using l i len by (simp add: list_all2_conv_all_nth)
    note m = users_of_rows_Inr [OF u]
    have l1: "length (batches ! i) = length (records (?chunks ! i))"
      using m by (simp add: list_all2_lengthD)
    have "length (records (?chunks ! i)) \<le> chunk_size"
      using assms(4) i len by (simp add: list_all_length)
    then have l2: "length (batches ! i) \<le> 1000" using l1 by (simp add: chunk_size_def)
    have mk: "make_user (columns (?chunks ! i)) (records (?chunks ! i) ! j) = Inr (batches ! i ! j)"
      if "j < length (batches ! i)" for j
      using m that by (simp add: list_all2_conv_all_nth)
    show ?thesis
      using l1 l2 mk make_user_fields [OF mk] by blast
  qed
  show ?thesis
    using b len each by blast
qed

lemma str_nat_ascii: "list_all (\<lambda>c. (of_char c :: nat) < 128) (str_nat n)"
proof (induction n rule: str_nat.induct)
  case (1 n)
  show ?case
  proof (cases "n < 10")
    case True
    then show ?thesis by (subst str_nat.simps) simp
  next
    case False
    have "n mod 10 < 10" by simp
    then have "(48 + n mod 10) mod 256 < (128::nat)" by simp
    then show ?thesis using False "1.IH" by (subst str_nat.simps) simp
  qed
qed

lemma csv_line_ascii: "list_all (\<lambda>c. (of_char c :: nat) < 128) (csv_line k)"
  using str_nat_ascii [of k] by (simp add: csv_line_def)

lemma big_csv_decodes: "decode_ascii (bytes_of big_csv) = Inr big_csv"
proof (rule decode_ascii_bytes_of)
  have "list_all (\<lambda>c. (of_char c :: nat) < 128) (concat (map csv_line [0..<1001]))"
    using csv_line_ascii by (simp add: list_all_iff)
  then show "list_all (\<lambda>c. (of_char c :: nat) < 128) big_csv"
    by (simp add: big_csv_def)
qed

lemma example_decodes:
  "decode_ascii (bytes_of bad_age_csv) = Inr bad_age_csv"
  "decode_ascii (bytes_of no_age_csv) = Inr no_age_csv"
  "decode_ascii (bytes_of big_csv) = Inr big_csv"
  "decode_ascii [0xFF] = Inl (UnicodeDecodeError ''invalid start byte'')"
proof -
  show "decode_ascii (bytes_of bad_age_csv) = Inr bad_age_csv"
    by (rule decode_ascii_bytes_of) (simp add: bad_age_csv_def)
  show "decode_ascii (bytes_of no_age_csv) = Inr no_age_csv"
    by (rule decode_ascii_bytes_of) (simp add: no_age_csv_def)
  show "decode_ascii (bytes_of big_csv) = Inr big_csv"
    by (rule big_csv_decodes)
  show "decode_ascii [0xFF] = Inl (UnicodeDecodeError ''invalid start byte'')"
    by (simp add: decode_ascii_def)
qed

lemma no_age_is_not_bad_age: "no_age_csv \<noteq> bad_age_csv"
  by (simp add: no_age_csv_def bad_age_csv_def)

lemma read_big_chunks:
  "reader_fails (read_big big_csv chunk_size) = None"
  "list_all valid_chunk (reader_chunks (read_big big_csv chunk_size))"
  "list_all (\<lambda>c. length (records c) \<le> chunk_size) (reader_chunks (read_big big_csv chunk_size))"
  "reader_chunks (read_big big_csv chunk_size) =
     [\<lparr>columns = [''FirstName'', ''LastName'', ''Age'', ''Email''], records = map numbered_row [0..<1000]\<rparr>,
      \<lparr>columns = [''FirstName'', ''LastName'', ''Age'', ''Email''], records = [numbered_row 1000]\<rparr>]"
  by (simp_all add: read_big_def valid_chunk_def required_columns_def numbered_row_def chunk_size_def
      list_all_iff)

lemma numbered_user_unique:
  assumes "map_of (zip [''FirstName'', ''LastName'', ''Age'', ''Email''] (numbered_row k)) ''FirstName''
             = Some (obj_firstName u)"
    and "map_of (zip [''FirstName'', ''LastName'', ''Age'', ''Email''] (numbered_row k)) ''LastName''
             = Some (obj_lastName u)"
    and "map_of (zip [''FirstName'', ''LastName'', ''Age'', ''Email''] (numbered_row k)) ''Age''
             = Some (obj_age u)"
    and "map_of (zip [''FirstName'', ''LastName'', ''Age'', ''Email''] (numbered_row k)) ''Email''
             = Some (obj_email u)"
  shows "u = numbered_user k"
  using assms by (cases u) (simp add: numbered_row_def numbered_user_def)

theorem producer_batches_witness:
  "decode_ascii (bytes_of big_csv) = Inr big_csv
   \<and> reader_fails (read_big big_csv chunk_size) = None
   \<and> list_all valid_chunk (reader_chunks (read_big big_csv chunk_size))
   \<and> list_all (\<lambda>c. length (records c) \<le> chunk_size) (reader_chunks (read_big big_csv chunk_size))
   \<and> fst (process_csv_async decode_ascii read_big (bytes_of big_csv) ''users.csv'' startup) = Inr ()
   \<and> queue (snd (process_csv_async decode_ascii read_big (bytes_of big_csv) ''users.csv'' startup))
        = [map numbered_user [0..<1000], [numbered_user 1000]]"
proof -
  let ?cols = "[''FirstName'', ''LastName'', ''Age'', ''Email'']"
  let ?ch = "reader_chunks (read_big big_csv chunk_size)"
  let ?p = "process_csv_async decode_ascii read_big (bytes_of big_csv) ''users.csv'' startup"
  let ?Q = "\<lambda>bs i j.
       map_of (zip (columns (?ch ! i)) (records (?ch ! i) ! j)) ''FirstName'' = Some (obj_firstName (bs ! i ! j))
     \<and> map_of (zip (columns (?ch ! i)) (records (?ch ! i) ! j)) ''LastName'' = Some (obj_lastName (bs ! i ! j))
     \<and> map_of (zip (columns (?ch ! i)) (records (?ch ! i) ! j)) ''Age'' = Some (obj_age (bs ! i ! j))
     \<and> map_of (zip (columns (?ch ! i)) (records (?ch ! i) ! j)) ''Email'' = Some (obj_email (bs ! i ! j))"
  from producer_batches [where decode = decode_ascii and read_csv = read_big and name = "''users.csv''"
      and s = startup, OF big_csv_decodes read_big_chunks(1,2,3)]
  obtain batches where b: "fst ?p = Inr ()" "queue (snd ?p) = queue startup @ batches"
      "length batches = length ?ch"
    and e: "\<forall>i < length batches. length (batches ! i) = length (records (?ch ! i))
               \<and> (\<forall>j < length (batches ! i). ?Q batches i j)"
    by blast
  have n: "length batches = 2" using b(3) by (simp add: read_big_chunks(4))
  have i0: "0 < length batches" and i1: "1 < length batches" using n by simp_all
  have c0: "columns (?ch ! 0) = ?cols" "records (?ch ! 0) = map numbered_row [0..<1000]"
    and c1: "columns (?ch ! 1) = ?cols" "records (?ch ! 1) = [numbered_row 1000]"
    by (simp_all add: read_big_chunks(4))
  have l0: "length (batches ! 0) = 1000" using e i0 c0(2) by simp
  have l1: "length (batches ! 1) = 1" using e i1 c1(2) by simp
  have q0: "\<forall>j < length (batches ! 0). ?Q batches 0 j" using e i0 by blast
  have q1: "\<forall>j < length (batches ! 1). ?Q batches 1 j" using e i1 by blast
  have u0: "batches ! 0 ! j = numbered_user j" if j: "j < 1000" for j
  proof -
    have "j < length (batches ! 0)" using j l0 by simp
    then have "?Q batches 0 j" using q0 by blast
    moreover have "records (?ch ! 0) ! j = numbered_row j" using j by (simp add: c0(2))
    ultimately show ?thesis
      unfolding c0(1) by (intro numbered_user_unique) simp_all
  qed
  have u1: "batches ! 1 ! 0 = numbered_user 1000"
  proof -
    have "0 < length (batches ! 1)" using l1 by simp
    then have "?Q batches 1 0" using q1 by blast
    moreover have "records (?ch ! 1) ! 0 = numbered_row 1000" using c1(2) by simp
    ultimately show ?thesis
      unfolding c1(1) by (intro numbered_user_unique) simp_all
  qed
  have b0: "batches ! 0 = map numbered_user [0..<1000]"
    using l0 u0 by (simp add: list_eq_iff_nth_eq)
  have b1: "batches ! 1 = [numbered_user 1000]"
    using l1 u1 by (simp add: list_eq_iff_nth_eq)
  have "batches = [batches ! 0, batches ! 1]"
    using n by (simp add: list_eq_iff_nth_eq less_Suc_eq numeral_2_eq_2)
  then have "batches = [map numbered_user [0..<1000], [numbered_user 1000]]"
    using b0 b1 by simp
  then have "queue (snd ?p) = [map numbered_user [0..<1000], [numbered_user 1000]]"
    using b(2) by (simp add: startup_def)
  then show ?thesis using b(1) big_csv_decodes read_big_chunks(1,2,3) by simp
qed

lemma bad_age_run:
  "process_csv_async decode_ascii read_examples (bytes_of bad_age_csv) name startup =
     (Inr (),
      \<lparr>queue = [[bob]], unfinished_tasks = 1, users_table = [], sessions_opened = 0,
       open_sessions = [],
       trace = [Reader_next, Queue_put [bob], Reader_next,
                Logging_info (''CSV file '' @ [CHR 0x27] @ name @ [CHR 0x27]
                                @ '' is being processed in the background.'')]\<rparr>)"
  by (simp add: process_csv_async_def example_decodes read_examples_def make_user_def getitem_def
      producer_defs startup_def bob_def)

text \<open>
  C2, as stated, fails: the row of this file has the age \<^verbatim>\<open>abc\<close>, the producer returns
  normally and the batch with that row is on the queue.
\<close>

theorem bad_age_is_queued:
  "obj_age bob = CStr ''abc''
   \<and> fst (process_csv_async decode_ascii read_examples (bytes_of bad_age_csv) ''users.csv'' startup) = Inr ()
   \<and> queue (snd (process_csv_async decode_ascii read_examples (bytes_of bad_age_csv) ''users.csv'' startup))
       = [[bob]]"
  by (simp add: bad_age_run bob_def)

text \<open>
  C2, amended. When the bytes cannot be decoded, the producer raises and leaves the
  pipeline as it was; when the first chunk has a row and lacks a required column, the
  producer raises an \<open>HTTPException\<close> with status 500 and the queue is as it was. An age
  that is not an integer is no failure in the producer: a chunk with the four columns is
  put on the queue whatever its values are.
\<close>

theorem producer_rejects_without_queueing:
  "(decode file_content = Inl e \<longrightarrow>
      process_csv_async decode read_csv file_content name s = (Inl e, s))
   \<and> (decode file_content = Inr decoded \<and> read_csv decoded chunk_size = Chunk c r
        \<and> records c \<noteq> [] \<and> \<not> set required_columns \<subseteq> set (columns c) \<longrightarrow>
        (\<exists>k \<in> set required_columns.
           fst (process_csv_async decode read_csv file_content name s) =
             Inl (HTTPException 500 (''An error occurred while processing the CSV: '' @ str_exn (KeyError k))))
        \<and> queue (snd (process_csv_async decode read_csv file_content name s)) = queue s)
   \<and> (decode file_content = Inr decoded \<and> read_csv decoded chunk_size = Chunk c Stop \<and> valid_chunk c \<longrightarrow>
        (\<exists>b. users_of_rows (columns c) (records c) = Inr b
           \<and> fst (process_csv_async decode read_csv file_content name s) = Inr ()
           \<and> queue (snd (process_csv_async decode read_csv file_content name s)) = queue s @ [b]))"
proof (intro conjI impI)
  assume "decode file_content = Inl e"
  then show "process_csv_async decode read_csv file_content name s = (Inl e, s)"
    by (rule process_csv_async_decode_fails)
next
  assume h: "decode file_content = Inr decoded \<and> read_csv decoded chunk_size = Chunk c r
        \<and> records c \<noteq> [] \<and> \<not> set required_columns \<subseteq> set (columns c)"
  then have d: "decode file_content = Inr decoded" and rd: "read_csv decoded chunk_size = Chunk c r"
    and ne: "records c \<noteq> []" and m: "\<not> set required_columns \<subseteq> set (columns c)"
    by simp_all
  show "\<exists>k \<in> set required_columns.
           fst (process_csv_async decode read_csv file_content name s) =
             Inl (HTTPException 500 (''An error occurred while processing the CSV: '' @ str_exn (KeyError k)))"
    by (rule process_csv_async_missing_column(1) [where decode = decode and read_csv = read_csv,
          OF d rd ne m])
  show "queue (snd (process_csv_async decode read_csv file_content name s)) = queue s"
    by (rule process_csv_async_missing_column(2) [where decode = decode and read_csv = read_csv,
          OF d rd ne m])
next
  assume h: "decode file_content = Inr decoded \<and> read_csv decoded chunk_size = Chunk c Stop \<and> valid_chunk c"
  then have d: "decode file_content = Inr decoded" and rd: "read_csv decoded chunk_size = Chunk c Stop"
    and v: "valid_chunk c"
    by simp_all
  obtain b where b: "users_of_rows (columns c) (records c) = Inr b"
    using users_of_rows_valid [of "columns c" "records c"] v by (auto simp: valid_chunk_def)
  have "fst (process_csv_async decode read_csv file_content name s) = Inr ()"
       "queue (snd (process_csv_async decode read_csv file_content name s)) = queue s @ [b]"
    using d rd b by (simp_all add: process_csv_async_def producer_defs)
  then show "\<exists>b. users_of_rows (columns c) (records c) = Inr b
           \<and> fst (process_csv_async decode read_csv file_content name s) = Inr ()
           \<and> queue (snd (process_csv_async decode read_csv file_content name s)) = queue s @ [b]"
    using b by blast
qed

lemma read_examples_no_age:
  "read_examples no_age_csv chunk_size =
     Chunk \<lparr>columns = [''FirstName'', ''LastName'', ''Email''],
            records = [[CStr ''Ann'', CStr ''Lee'', CStr ''ann@example.org'']]\<rparr> Stop"
  by (simp add: read_examples_def no_age_is_not_bad_age)

lemma read_examples_bad_age:
  "read_examples bad_age_csv chunk_size =
     Chunk \<lparr>columns = [''FirstName'', ''LastName'', ''Age'', ''Email''],
            records = [[CStr ''Bob'', CStr ''Ray'', CStr ''abc'', CStr ''bob@example.org'']]\<rparr> Stop"
  by (simp add: read_examples_def)

theorem producer_rejects_without_queueing_witness:
  "decode_ascii [0xFF] = Inl (UnicodeDecodeError ''invalid start byte'')
   \<and> process_csv_async decode_ascii read_examples [0xFF] ''users.csv'' one_batch
        = (Inl (UnicodeDecodeError ''invalid start byte''), one_batch)
   \<and> decode_ascii (bytes_of no_age_csv) = Inr no_age_csv
   \<and> (\<exists>k \<in> set required_columns.
         fst (process_csv_async decode_ascii read_examples (bytes_of no_age_csv) ''users.csv'' one_batch) =
           Inl (HTTPException 500 (''An error occurred while processing the CSV: '' @ str_exn (KeyError k))))
   \<and> queue (snd (process_csv_async decode_ascii read_examples (bytes_of no_age_csv) ''users.csv'' one_batch))
        = [[ann]]
   \<and> decode_ascii (bytes_of bad_age_csv) = Inr bad_age_csv
   \<and> queue (snd (process_csv_async decode_ascii read_examples (bytes_of bad_age_csv) ''users.csv'' one_batch))
        = [[ann], [bob]]"
proof -
  note t1 = producer_rejects_without_queueing [where decode = decode_ascii and read_csv = read_examples
      and file_content = "[0xFF]" and e = "UnicodeDecodeError ''invalid start byte''"
      and name = "''users.csv''" and s = one_batch]
  note t2 = producer_rejects_without_queueing [where decode = decode_ascii and read_csv = read_examples
      and file_content = "bytes_of no_age_csv" and decoded = no_age_csv
      and c = "\<lparr>columns = [''FirstName'', ''LastName'', ''Email''],
            records = [[CStr ''Ann'', CStr ''Lee'', CStr ''ann@example.org'']]\<rparr>" and r = Stop
      and name = "''users.csv''" and s = one_batch]
  note t3 = producer_rejects_without_queueing [where decode = decode_ascii and read_csv = read_examples
      and file_content = "bytes_of bad_age_csv" and decoded = bad_age_csv
      and c = "\<lparr>columns = [''FirstName'', ''LastName'', ''Age'', ''Email''],
            records = [[CStr ''Bob'', CStr ''Ray'', CStr ''abc'', CStr ''bob@example.org'']]\<rparr>"
      and name = "''users.csv''" and s = one_batch]
  have a: "process_csv_async decode_ascii read_examples [0xFF] ''users.csv'' one_batch
        = (Inl (UnicodeDecodeError ''invalid start byte''), one_batch)"
    using t1 example_decodes(4) by simp
  have b: "(\<exists>k \<in> set required_columns.
         fst (process_csv_async decode_ascii read_examples (bytes_of no_age_csv) ''users.csv'' one_batch) =
           Inl (HTTPException 500 (''An error occurred while processing the CSV: '' @ str_exn (KeyError k))))
     \<and> queue (snd (process_csv_async decode_ascii read_examples (bytes_of no_age_csv) ''users.csv'' one_batch))
        = [[ann]]"
    using t2 example_decodes(2) read_examples_no_age
    by (simp add: required_columns_def one_batch_fields)
  have c: "queue (snd (process_csv_async decode_ascii read_examples (bytes_of bad_age_csv) ''users.csv'' one_batch))
        = [[ann], [bob]]"
    using t3 example_decodes(1) read_examples_bad_age
    by (simp add: valid_chunk_def required_columns_def one_batch_fields make_user_def getitem_def bob_def)
  show ?thesis using a b c example_decodes by simp
qed

section \<open>The upload endpoint: the claims\<close>

lemma endswith_examples:
  "endswith ''users.csv'' ''.csv''" "\<not> endswith ''data.txt'' ''.csv''"
  by (simp_all add: endswith_def)

text \<open>
  C8. For a file name that does not end in \<^verbatim>\<open>.csv\<close> the upload raises the
  \<open>HTTPException\<close> with status 400 and leaves the event loop as it was: no task is
  created and the queue is untouched. For a file name that ends in \<^verbatim>\<open>.csv\<close> the
  response is the success message "CSV file is being processed in the background"; the
  handler creates the task of the producer and does not touch the queue itself.
\<close>

theorem upload_csv_filename_check:
  "(\<not> endswith (filename file) ''.csv'' \<longrightarrow>
      upload_csv file l =
        (Inl (HTTPException 400 ''Invalid file type. Please upload a CSV file.''), l))
   \<and> (endswith (filename file) ''.csv'' \<longrightarrow>
      fst (upload_csv file l) =
        Inr \<lparr>success = True, message = ''CSV file is being processed in the background''\<rparr>
      \<and> state (snd (upload_csv file l)) = state l
      \<and> created (snd (upload_csv file l)) = created l @ [(content file, filename file)])"
  by (simp add: upload_csv_def)

theorem upload_csv_filename_check_witness:
  "\<not> endswith ''data.txt'' ''.csv''
   \<and> upload_csv \<lparr>filename = ''data.txt'', content = bytes_of bad_age_csv\<rparr> idle =
        (Inl (HTTPException 400 ''Invalid file type. Please upload a CSV file.''), idle)
   \<and> endswith ''users.csv'' ''.csv''
   \<and> fst (upload_csv \<lparr>filename = ''users.csv'', content = bytes_of bad_age_csv\<rparr> idle) =
        Inr \<lparr>success = True, message = ''CSV file is being processed in the background''\<rparr>
   \<and> queue (state (snd (upload_csv \<lparr>filename = ''users.csv'', content = bytes_of bad_age_csv\<rparr> idle))) = []"
proof -
  note t1 = upload_csv_filename_check [of "\<lparr>filename = ''data.txt'', content = bytes_of bad_age_csv\<rparr>" idle]
  note t2 = upload_csv_filename_check [of "\<lparr>filename = ''users.csv'', content = bytes_of bad_age_csv\<rparr>" idle]
  have "upload_csv \<lparr>filename = ''data.txt'', content = bytes_of bad_age_csv\<rparr> idle =
        (Inl (HTTPException 400 ''Invalid file type. Please upload a CSV file.''), idle)"
    using t1 endswith_examples(2) by simp
  moreover have "fst (upload_csv \<lparr>filename = ''users.csv'', content = bytes_of bad_age_csv\<rparr> idle) =
        Inr \<lparr>success = True, message = ''CSV file is being processed in the background''\<rparr>
      \<and> state (snd (upload_csv \<lparr>filename = ''users.csv'', content = bytes_of bad_age_csv\<rparr> idle)) = state idle"
    using t2 endswith_examples(1) by simp
  ultimately show ?thesis using endswith_examples by (simp add: idle_def startup_def)
qed

text \<open>
  C3, as stated, fails. For the file whose row has the age \<^verbatim>\<open>abc\<close>, the response of the
  upload is the success message, the task the handler created ends without an exception,
  and the row is on the queue: no failure is reported anywhere. For a file of the one
  byte \<open>0xFF\<close> the response is the success message as well, and the
  \<open>UnicodeDecodeError\<close> is the result of the task.
\<close>

theorem upload_reports_no_failure:
  "fst (upload_csv \<lparr>filename = ''users.csv'', content = bytes_of bad_age_csv\<rparr> idle) =
      Inr \<lparr>success = True, message = ''CSV file is being processed in the background''\<rparr>
   \<and> results (run_task decode_ascii read_examples
        (snd (upload_csv \<lparr>filename = ''users.csv'', content = bytes_of bad_age_csv\<rparr> idle))) = [Inr ()]
   \<and> queue (state (run_task decode_ascii read_examples
        (snd (upload_csv \<lparr>filename = ''users.csv'', content = bytes_of bad_age_csv\<rparr> idle)))) = [[bob]]
   \<and> fst (upload_csv \<lparr>filename = ''users.csv'', content = [0xFF]\<rparr> idle) =
      Inr \<lparr>success = True, message = ''CSV file is being processed in the background''\<rparr>
   \<and> results (run_task decode_ascii read_examples
        (snd (upload_csv \<lparr>filename = ''users.csv'', content = [0xFF]\<rparr> idle))) =
      [Inl (UnicodeDecodeError ''invalid start byte'')]"
  by (simp add: upload_csv_def endswith_examples run_task_def idle_def bad_age_run
      process_csv_async_decode_fails [where decode = decode_ascii, OF example_decodes(4)])

text \<open>
  C3, amended. When the bytes cannot be decoded, \<open>process_csv_async\<close> raises the
  decoder's exception itself; when the first chunk has a row and lacks a required
  column, it raises an \<open>HTTPException\<close> with status 500 whose detail carries the
  \<open>KeyError\<close> of a required column; a file whose chunks have the four columns makes it
  raise nothing, whatever the ages are.
\<close>

theorem producer_failures:
  "(decode file_content = Inl e \<longrightarrow>
      fst (process_csv_async decode read_csv file_content name s) = Inl e)
   \<and> (decode file_content = Inr decoded \<and> read_csv decoded chunk_size = Chunk c r
        \<and> records c \<noteq> [] \<and> \<not> set required_columns \<subseteq> set (columns c) \<longrightarrow>
        (\<exists>k \<in> set required_columns.
           fst (process_csv_async decode read_csv file_content name s) =
             Inl (HTTPException 500 (''An error occurred while processing the CSV: '' @ str_exn (KeyError k)))))
   \<and> (decode file_content = Inr decoded \<and> reader_fails (read_csv decoded chunk_size) = None
        \<and> list_all valid_chunk (reader_chunks (read_csv decoded chunk_size)) \<longrightarrow>
        fst (process_csv_async decode read_csv file_content name s) = Inr ())"
proof (intro conjI impI)
  assume "decode file_content = Inl e"
  then show "fst (process_csv_async decode read_csv file_content name s) = Inl e"
    by (simp add: process_csv_async_decode_fails)
next
  assume h: "decode file_content = Inr decoded \<and> read_csv decoded chunk_size = Chunk c r
        \<and> records c \<noteq> [] \<and> \<not> set required_columns \<subseteq> set (columns c)"
  then have d: "decode file_content = Inr decoded" and rd: "read_csv decoded chunk_size = Chunk c r"
    and ne: "records c \<noteq> []" and m: "\<not> set required_columns \<subseteq> set (columns c)"
    by simp_all
  show "\<exists>k \<in> set required_columns.
           fst (process_csv_async decode read_csv file_content name s) =
             Inl (HTTPException 500 (''An error occurred while processing the CSV: '' @ str_exn (KeyError k)))"
    by (rule process_csv_async_missing_column(1) [where decode = decode and read_csv = read_csv,
          OF d rd ne m])
next
  assume h: "decode file_content = Inr decoded \<and> reader_fails (read_csv decoded chunk_size) = None
        \<and> list_all valid_chunk (reader_chunks (read_csv decoded chunk_size))"
  then have d: "decode file_content = Inr decoded"
    and nf: "reader_fails (read_csv decoded chunk_size) = None"
    and v: "list_all valid_chunk (reader_chunks (read_csv decoded chunk_size))"
    by simp_all
  show "fst (process_csv_async decode read_csv file_content name s) = Inr ()"
    using process_csv_async_valid [where decode = decode and read_csv = read_csv and name = name
        and s = s, OF d nf v]
    by blast
qed

theorem producer_failures_witness:
  "decode_ascii [0xFF] = Inl (UnicodeDecodeError ''invalid start byte'')
   \<and> fst (process_csv_async decode_ascii read_examples [0xFF] ''users.csv'' startup)
        = Inl (UnicodeDecodeError ''invalid start byte'')
   \<and> decode_ascii (bytes_of no_age_csv) = Inr no_age_csv
   \<and> fst (process_csv_async decode_ascii read_examples (bytes_of no_age_csv) ''users.csv'' startup) =
        Inl (HTTPException 500 (''An error occurred while processing the CSV: '' @ str_exn (KeyError ''Age'')))
   \<and> decode_ascii (bytes_of bad_age_csv) = Inr bad_age_csv
   \<and> fst (process_csv_async decode_ascii read_examples (bytes_of bad_age_csv) ''users.csv'' startup) = Inr ()"
proof -
  note t1 = producer_failures [where decode = decode_ascii and read_csv = read_examples
      and file_content = "[0xFF]" and e = "UnicodeDecodeError ''invalid start byte''"
      and name = "''users.csv''" and s = startup]
  note t2 = producer_failures [where decode = decode_ascii and read_csv = read_examples
      and file_content = "bytes_of no_age_csv" and decoded = no_age_csv
      and c = "\<lparr>columns = [''FirstName'', ''LastName'', ''Email''],
            records = [[CStr ''Ann'', CStr ''Lee'', CStr ''ann@example.org'']]\<rparr>" and r = Stop
      and name = "''users.csv''" and s = startup]
  note t3 = producer_failures [where decode = decode_ascii and read_csv = read_examples
      and file_content = "bytes_of bad_age_csv" and decoded = bad_age_csv
      and name = "''users.csv''" and s = startup]
  have a: "fst (process_csv_async decode_ascii read_examples [0xFF] ''users.csv'' startup)
        = Inl (UnicodeDecodeError ''invalid start byte'')"
    using t1 example_decodes(4) by simp
  have "\<exists>k \<in> set required_columns.
         fst (process_csv_async decode_ascii read_examples (bytes_of no_age_csv) ''users.csv'' startup) =
           Inl (HTTPException 500 (''An error occurred while processing the CSV: '' @ str_exn (KeyError k)))"
    using t2 example_decodes(2) read_examples_no_age by (simp add: required_columns_def)
  moreover have "fst (process_csv_async decode_ascii read_examples (bytes_of no_age_csv) ''users.csv'' startup)
      = Inl (HTTPException 500 (''An error occurred while processing the CSV: '' @ str_exn (KeyError ''Age'')))"
    by (simp add: process_csv_async_def example_decodes(2) read_examples_no_age make_user_def
        getitem_def)
  ultimately have b: "fst (process_csv_async decode_ascii read_examples (bytes_of no_age_csv) ''users.csv'' startup)
      = Inl (HTTPException 500 (''An error occurred while processing the CSV: '' @ str_exn (KeyError ''Age'')))"
    by simp
  have c: "fst (process_csv_async decode_ascii read_examples (bytes_of bad_age_csv) ''users.csv'' startup) = Inr ()"
    using t3 example_decodes(1) read_examples_bad_age
    by (simp add: valid_chunk_def required_columns_def)
  show ?thesis using a b c example_decodes by simp
qed

end
